theory Spec2Isabelle
  imports Main
begin

section \<open>The engine (class GooglePubSub)\<close>

text \<open>
  Listener ids are the values of \<open>currentClientId++\<close>, modelled as natural numbers.
  Errors are values: \<open>NoSubscriptionOfIdError\<close> is the class of the source, \<open>TypeError\<close>
  is what JavaScript raises when a property of \<open>undefined\<close> is read or \<open>undefined\<close>
  is destructured, and \<open>Thrown\<close> stands for an error raised by a collaborator (the broker
  client, the common message handler, a delivery callback).
\<close>

datatype error = NoSubscriptionOfIdError nat | TypeError | Thrown string

datatype event_kind = MessageEvent | ErrorEvent

text \<open>
  The type \<open>GoogleSubAndClientIds\<close>. Both places of the source that store such an object
  set its \<open>ids\<close> field, so \<open>ids\<close> is a list here and the object \<open>{}\<close> that the
  source substitutes for a missing entry is the \<open>None\<close> of the map lookup. The handlers
  are closures created by the continuation of one \<open>subscribe\<close> call; a handler is named by
  the listener id of that call.
\<close>

record 's GoogleSubAndClientIds =
  sub :: "'s option"
  messageHandler :: "nat option"
  errorHandler :: "nat option"
  ids :: "nat list"

record ('cb, 's) GooglePubSub =
  clientId2GoogleSubNameAndClientCallback :: "nat \<rightharpoonup> (string \<times> 'cb)"
  googleSubName2GoogleSubAndClientIds :: "string \<rightharpoonup> 's GoogleSubAndClientIds"
  currentClientId :: nat

text \<open>The state the constructor leaves.\<close>

definition constructor :: "('cb, 's) GooglePubSub" where
  "constructor =
     \<lparr>clientId2GoogleSubNameAndClientCallback = Map.empty,
      googleSubName2GoogleSubAndClientIds = Map.empty,
      currentClientId = 0\<rparr>"

text \<open>The default of the constructor's parameter \<open>topic2SubName\<close>.\<close>

definition default_topic2SubName :: "string \<Rightarrow> 'o option \<Rightarrow> string" where
  "default_topic2SubName topicName options = topicName @ ''-subscription''"

text \<open>
  Calls made on a broker subscription handle: \<open>sub.on(kind, handler)\<close> and
  \<open>sub.removeListener(kind, handler)\<close>. The trace entry also carries the subscription name
  the handle was obtained for.
\<close>

datatype 's broker_call =
    On string 's event_kind nat
  | RemoveListener string 's event_kind "nat option"

text \<open>
  \<open>getSubscription\<close>: \<open>sub\<close> is the handle \<open>pubSubClient.subscription(subName)\<close>, and the
  other two arguments are the outcomes of the broker calls \<open>sub.exists()\<close> and
  \<open>createSubscription(subName)\<close>.
\<close>

definition getSubscription :: "'s \<Rightarrow> error + bool \<Rightarrow> error + 's \<Rightarrow> error + 's" where
  "getSubscription s exists_outcome create_outcome =
     (case exists_outcome of
        Inl err \<Rightarrow> Inl err
      | Inr exists \<Rightarrow> if exists then Inr s else create_outcome)"

text \<open>
  \<open>subscribe\<close> is an async function. Its body up to the \<open>await\<close> runs at the call; it
  either returns the id (a listener was there already) or suspends with the values its
  continuation needs.
\<close>

record subscribe_frame =
  frame_topicName :: string
  frame_subName :: string
  frame_id :: nat

datatype subscribe_outcome = Returned nat | Awaiting subscribe_frame

definition subscribe ::
  "(string \<Rightarrow> 'o option \<Rightarrow> string) \<Rightarrow> ('cb, 's) GooglePubSub \<Rightarrow> string \<Rightarrow> 'cb \<Rightarrow> 'o option
     \<Rightarrow> subscribe_outcome \<times> ('cb, 's) GooglePubSub" where
  "subscribe topic2SubName e topicName onMessage options =
     (let subName = topic2SubName topicName options;
          clientId = currentClientId e;
          old = googleSubName2GoogleSubAndClientIds e subName;
          oldIds = (case old of None \<Rightarrow> [] | Some en \<Rightarrow> ids en);
          rest = (case old of
                    None \<Rightarrow> \<lparr>sub = None, messageHandler = None, errorHandler = None, ids = []\<rparr>
                  | Some en \<Rightarrow> en);
          e' = e\<lparr>currentClientId := clientId + 1,
                 clientId2GoogleSubNameAndClientCallback :=
                   (clientId2GoogleSubNameAndClientCallback e)(clientId \<mapsto> (subName, onMessage)),
                 googleSubName2GoogleSubAndClientIds :=
                   (googleSubName2GoogleSubAndClientIds e)(subName \<mapsto> rest\<lparr>ids := oldIds @ [clientId]\<rparr>)\<rparr>
      in if length oldIds > 0 then (Returned clientId, e')
         else (Awaiting \<lparr>frame_topicName = topicName, frame_subName = subName, frame_id = clientId\<rparr>, e'))"

text \<open>
  The continuation of \<open>subscribe\<close> after \<open>await this.getSubscription(...)\<close>. A rejected
  round trip rejects the call. Otherwise the entry is read again; when it is missing the
  source evaluates \<open>({}).ids.length\<close>, which raises a TypeError.
\<close>

definition subscribe_resume ::
  "('cb, 's) GooglePubSub \<Rightarrow> subscribe_frame \<Rightarrow> error + 's
     \<Rightarrow> (error + nat) \<times> ('cb, 's) GooglePubSub \<times> 's broker_call list" where
  "subscribe_resume e fr outcome =
     (case outcome of
        Inl err \<Rightarrow> (Inl err, e, [])
      | Inr s \<Rightarrow>
          (case googleSubName2GoogleSubAndClientIds e (frame_subName fr) of
             None \<Rightarrow> (Inl TypeError, e, [])
           | Some googleSubAndClientIds \<Rightarrow>
               if length (ids googleSubAndClientIds) = 0 then (Inr (frame_id fr), e, [])
               else
                 (Inr (frame_id fr),
                  e\<lparr>googleSubName2GoogleSubAndClientIds :=
                      (googleSubName2GoogleSubAndClientIds e)(frame_subName fr \<mapsto>
                         googleSubAndClientIds\<lparr>messageHandler := Some (frame_id fr),
                                                errorHandler := Some (frame_id fr),
                                                sub := Some s\<rparr>)\<rparr>,
                  [On (frame_subName fr) s MessageEvent (frame_id fr),
                   On (frame_subName fr) s ErrorEvent (frame_id fr)])))"

text \<open>\<open>ids.indexOf(subId)\<close>, with \<open>None\<close> for \<open>-1\<close>, and the two slices around an index.\<close>

fun indexOf :: "nat list \<Rightarrow> nat \<Rightarrow> nat option" where
  "indexOf [] x = None"
| "indexOf (y # ys) x =
     (if y = x then Some 0 else (case indexOf ys x of None \<Rightarrow> None | Some i \<Rightarrow> Some (Suc i)))"

definition without_index :: "nat list \<Rightarrow> nat \<Rightarrow> nat list" where
  "without_index xs index = take index xs @ drop (index + 1) xs"

text \<open>
  \<open>unsubscribe\<close>. Both \<open>throw\<close> statements come before the first assignment, so a failing
  call returns the state it was given. The test \<open>!subName\<close> is true for a missing record
  and for the empty string.
\<close>

definition unsubscribe ::
  "('cb, 's) GooglePubSub \<Rightarrow> nat \<Rightarrow> (error + unit) \<times> ('cb, 's) GooglePubSub \<times> 's broker_call list" where
  "unsubscribe e subId =
     (case clientId2GoogleSubNameAndClientCallback e subId of
        None \<Rightarrow> (Inl (NoSubscriptionOfIdError subId), e, [])
      | Some (subName, onMessage) \<Rightarrow>
          if subName = [] then (Inl (NoSubscriptionOfIdError subId), e, [])
          else
            (case googleSubName2GoogleSubAndClientIds e subName of
               None \<Rightarrow> (Inl (NoSubscriptionOfIdError subId), e, [])
             | Some googleSubAndClientIds \<Rightarrow>
                 if length (ids googleSubAndClientIds) = 1 then
                   (Inr (),
                    e\<lparr>googleSubName2GoogleSubAndClientIds :=
                        (googleSubName2GoogleSubAndClientIds e)(subName := None),
                      clientId2GoogleSubNameAndClientCallback :=
                        (clientId2GoogleSubNameAndClientCallback e)(subId := None)\<rparr>,
                    (case sub googleSubAndClientIds of
                       None \<Rightarrow> []
                     | Some s \<Rightarrow>
                         [RemoveListener subName s MessageEvent (messageHandler googleSubAndClientIds),
                          RemoveListener subName s ErrorEvent (errorHandler googleSubAndClientIds)]))
                 else
                   (Inr (),
                    e\<lparr>googleSubName2GoogleSubAndClientIds :=
                        (googleSubName2GoogleSubAndClientIds e)(subName \<mapsto>
                           googleSubAndClientIds\<lparr>ids :=
                             (case indexOf (ids googleSubAndClientIds) subId of
                                None \<Rightarrow> ids googleSubAndClientIds
                              | Some index \<Rightarrow> without_index (ids googleSubAndClientIds) index)\<rparr>),
                      clientId2GoogleSubNameAndClientCallback :=
                        (clientId2GoogleSubNameAndClientCallback e)(subId := None)\<rparr>,
                    [])))"

subsection \<open>Sequences of calls against one engine\<close>

text \<open>
  One engine together with the suspended \<open>subscribe\<close> calls, the trace of the calls made
  on broker handles, and the settled \<open>subscribe\<close> promises in the order they settled.
  A step is a call of \<open>subscribe\<close>, the end of one broker round trip, or a call of
  \<open>unsubscribe\<close>.
\<close>

datatype ('cb, 'o, 's) engine_call =
    Subscribe string 'cb "'o option"
  | GetSubscriptionSettled nat "error + 's"
  | Unsubscribe nat

record ('cb, 's) system =
  engine :: "('cb, 's) GooglePubSub"
  suspended :: "subscribe_frame list"
  trace :: "'s broker_call list"
  settled :: "(nat \<times> (error + nat)) list"

definition new_system :: "('cb, 's) system" where
  "new_system = \<lparr>engine = constructor, suspended = [], trace = [], settled = []\<rparr>"

fun step ::
  "(string \<Rightarrow> 'o option \<Rightarrow> string) \<Rightarrow> ('cb, 's) system \<Rightarrow> ('cb, 'o, 's) engine_call
     \<Rightarrow> ('cb, 's) system" where
  "step topic2SubName s (Subscribe topicName onMessage options) =
     (case subscribe topic2SubName (engine s) topicName onMessage options of
        (Returned clientId, e') \<Rightarrow> s\<lparr>engine := e', settled := settled s @ [(clientId, Inr clientId)]\<rparr>
      | (Awaiting fr, e') \<Rightarrow> s\<lparr>engine := e', suspended := suspended s @ [fr]\<rparr>)"
| "step topic2SubName s (GetSubscriptionSettled clientId outcome) =
     (case find (\<lambda>fr. frame_id fr = clientId) (suspended s) of
        None \<Rightarrow> s
      | Some fr \<Rightarrow>
          (case subscribe_resume (engine s) fr outcome of
             (r, e', cs) \<Rightarrow>
               s\<lparr>engine := e', suspended := remove1 fr (suspended s),
                 trace := trace s @ cs, settled := settled s @ [(clientId, r)]\<rparr>))"
| "step topic2SubName s (Unsubscribe subId) =
     (case unsubscribe (engine s) subId of
        (r, e', cs) \<Rightarrow> s\<lparr>engine := e', trace := trace s @ cs\<rparr>)"

fun run ::
  "(string \<Rightarrow> 'o option \<Rightarrow> string) \<Rightarrow> ('cb, 's) system \<Rightarrow> ('cb, 'o, 's) engine_call list
     \<Rightarrow> ('cb, 's) system" where
  "run topic2SubName s [] = s"
| "run topic2SubName s (c # cs) = run topic2SubName (step topic2SubName s c) cs"

subsection \<open>The message handler\<close>

text \<open>
  The handler that \<open>getMessageHandler(subName)\<close> returns. What it does is recorded as a
  list of effects: the call \<open>message.ack()\<close>, the call of the common message handler,
  and each call \<open>onMessage(res)\<close> with the listener id it was made for. The common message
  handler is a function to an outcome (a value, or the error it throws or rejects with).
\<close>

datatype ('m, 'v, 'cb) effect = Ack 'm | CommonMessageHandler 'm | OnMessage nat 'cb 'v

text \<open>
  A delivery callback is code of the caller. While it runs it can call \<open>subscribe\<close> and
  \<open>unsubscribe\<close> on the engine, and it ends by returning or by throwing.
  \<open>invoke clientId onMessage res\<close> is what the call \<open>onMessage(res)\<close> made for the listener
  \<open>clientId\<close> does: the calls on the engine, in order, and the error thrown, if any.
\<close>

datatype ('cb, 'o) callback_call = CallSubscribe string 'cb "'o option" | CallUnsubscribe nat

fun engine_call_of :: "('cb, 'o) callback_call \<Rightarrow> ('cb, 'o, 's) engine_call" where
  "engine_call_of (CallSubscribe topicName onMessage options) = Subscribe topicName onMessage options"
| "engine_call_of (CallUnsubscribe subId) = Unsubscribe subId"

text \<open>
  \<open>ids.forEach(id => { const [, onMessage] = ...[id]; onMessage(res) })\<close>. The loop walks
  the array it was started on (\<open>subscribe\<close> and \<open>unsubscribe\<close> store new arrays and never
  change one in place), and reads the record of each id when its turn comes: destructuring
  a record that has been deleted in the meantime raises a TypeError. An error thrown inside
  the loop ends it.
\<close>

fun forEach_onMessage ::
  "(string \<Rightarrow> 'o option \<Rightarrow> string)
     \<Rightarrow> (nat \<Rightarrow> 'cb \<Rightarrow> 'v \<Rightarrow> ('cb, 'o) callback_call list \<times> error option)
     \<Rightarrow> ('cb, 's) system \<Rightarrow> 'v \<Rightarrow> nat list
     \<Rightarrow> (error + unit) \<times> ('cb, 's) system \<times> ('m, 'v, 'cb) effect list" where
  "forEach_onMessage topic2SubName invoke s res [] = (Inr (), s, [])"
| "forEach_onMessage topic2SubName invoke s res (clientId # rest) =
     (case clientId2GoogleSubNameAndClientCallback (engine s) clientId of
        None \<Rightarrow> (Inl TypeError, s, [])
      | Some (subName, onMessage) \<Rightarrow>
          (case invoke clientId onMessage res of
             (calls, Some err) \<Rightarrow>
               (Inl err, run topic2SubName s (map engine_call_of calls),
                [OnMessage clientId onMessage res])
           | (calls, None) \<Rightarrow>
               (case forEach_onMessage topic2SubName invoke
                       (run topic2SubName s (map engine_call_of calls)) res rest of
                  (r, s', effs) \<Rightarrow> (r, s', OnMessage clientId onMessage res # effs))))"

text \<open>
  The part of \<open>handleMessage\<close> after \<open>await engine.commonMessageHandler(message)\<close>; \<open>s\<close>
  is the state at the moment the await completes.
\<close>

definition handleMessage_resume ::
  "(string \<Rightarrow> 'o option \<Rightarrow> string)
     \<Rightarrow> (nat \<Rightarrow> 'cb \<Rightarrow> 'v \<Rightarrow> ('cb, 'o) callback_call list \<times> error option)
     \<Rightarrow> ('cb, 's) system \<Rightarrow> string \<Rightarrow> error + 'v
     \<Rightarrow> (error + unit) \<times> ('cb, 's) system \<times> ('m, 'v, 'cb) effect list" where
  "handleMessage_resume topic2SubName invoke s subName outcome =
     (case outcome of
        Inl err \<Rightarrow> (Inl err, s, [])
      | Inr res \<Rightarrow>
          forEach_onMessage topic2SubName invoke s res
            (case googleSubName2GoogleSubAndClientIds (engine s) subName of
               None \<Rightarrow> []
             | Some googleSubAndClientIds \<Rightarrow> ids googleSubAndClientIds))"

text \<open>
  The whole handler: the outcome of the promise it returns (nothing in the source handles
  a rejection of it), the state it leaves and its effects in order.
\<close>

definition handleMessage ::
  "('m \<Rightarrow> error + 'v) \<Rightarrow> (string \<Rightarrow> 'o option \<Rightarrow> string)
     \<Rightarrow> (nat \<Rightarrow> 'cb \<Rightarrow> 'v \<Rightarrow> ('cb, 'o) callback_call list \<times> error option)
     \<Rightarrow> ('cb, 's) system \<Rightarrow> string \<Rightarrow> 'm
     \<Rightarrow> (error + unit) \<times> ('cb, 's) system \<times> ('m, 'v, 'cb) effect list" where
  "handleMessage commonMessageHandler topic2SubName invoke s subName message =
     (case handleMessage_resume topic2SubName invoke s subName (commonMessageHandler message) of
        (r, s', effs) \<Rightarrow> (r, s', Ack message # CommonMessageHandler message # effs))"

text \<open>The listeners that stand after a given one in a list of ids.\<close>

fun later_listeners :: "nat list \<Rightarrow> nat \<Rightarrow> nat list" where
  "later_listeners [] i = []"
| "later_listeners (j # js) i = (if j = i then js else later_listeners js i)"

subsection \<open>Counting attach and detach calls\<close>

text \<open>Attach and detach calls of the message handler on the handle of one name.\<close>

fun is_attach :: "string \<Rightarrow> 's broker_call \<Rightarrow> bool" where
  "is_attach n (On m s k h) = (m = n \<and> k = MessageEvent)"
| "is_attach n (RemoveListener m s k h) = False"

fun is_detach :: "string \<Rightarrow> 's broker_call \<Rightarrow> bool" where
  "is_detach n (On m s k h) = False"
| "is_detach n (RemoveListener m s k h) = (m = n \<and> k = MessageEvent)"

definition attach_calls :: "string \<Rightarrow> 's broker_call list \<Rightarrow> nat" where
  "attach_calls n tr = length (filter (is_attach n) tr)"

definition detach_calls :: "string \<Rightarrow> 's broker_call list \<Rightarrow> nat" where
  "detach_calls n tr = length (filter (is_detach n) tr)"

text \<open>The listeners registered under a name, and the round trips pending for it.\<close>

definition listeners :: "string \<Rightarrow> ('cb, 's) GooglePubSub \<Rightarrow> nat" where
  "listeners n e =
     (case googleSubName2GoogleSubAndClientIds e n of None \<Rightarrow> 0 | Some en \<Rightarrow> length (ids en))"

definition pending_round_trips :: "string \<Rightarrow> ('cb, 's) system \<Rightarrow> nat" where
  "pending_round_trips n s = length (filter (\<lambda>fr. frame_subName fr = n) (suspended s))"

definition attached :: "string \<Rightarrow> ('cb, 's) GooglePubSub \<Rightarrow> nat" where
  "attached n e =
     (case googleSubName2GoogleSubAndClientIds e n of
        None \<Rightarrow> 0
      | Some en \<Rightarrow> (case sub en of None \<Rightarrow> 0 | Some s \<Rightarrow> 1))"

text \<open>
  The steps of a run at which the listeners of a name go from none to one, and from one
  to none.
\<close>

fun zero_to_one ::
  "(string \<Rightarrow> 'o option \<Rightarrow> string) \<Rightarrow> string \<Rightarrow> ('cb, 's) system \<Rightarrow> ('cb, 'o, 's) engine_call list
     \<Rightarrow> nat" where
  "zero_to_one topic2SubName n s [] = 0"
| "zero_to_one topic2SubName n s (c # cs) =
     (if listeners n (engine s) = 0 \<and> listeners n (engine (step topic2SubName s c)) = 1
      then 1 else 0)
     + zero_to_one topic2SubName n (step topic2SubName s c) cs"

fun one_to_zero ::
  "(string \<Rightarrow> 'o option \<Rightarrow> string) \<Rightarrow> string \<Rightarrow> ('cb, 's) system \<Rightarrow> ('cb, 'o, 's) engine_call list
     \<Rightarrow> nat" where
  "one_to_zero topic2SubName n s [] = 0"
| "one_to_zero topic2SubName n s (c # cs) =
     (if listeners n (engine s) = 1 \<and> listeners n (engine (step topic2SubName s c)) = 0
      then 1 else 0)
     + one_to_zero topic2SubName n (step topic2SubName s c) cs"

text \<open>
  The round trips of a name that end without an attach call for a reason visible before
  they end: the broker rejected, or the name has no listener at that moment.
\<close>

fun ends_unattached ::
  "string \<Rightarrow> ('cb, 's) system \<Rightarrow> ('cb, 'o, 's) engine_call \<Rightarrow> bool" where
  "ends_unattached n s (GetSubscriptionSettled clientId outcome) =
     (case find (\<lambda>fr. frame_id fr = clientId) (suspended s) of
        None \<Rightarrow> False
      | Some fr \<Rightarrow> frame_subName fr = n \<and> (isl outcome \<or> listeners n (engine s) = 0))"
| "ends_unattached n s (Subscribe topicName onMessage options) = False"
| "ends_unattached n s (Unsubscribe subId) = False"

fun unattached_round_trips ::
  "(string \<Rightarrow> 'o option \<Rightarrow> string) \<Rightarrow> string \<Rightarrow> ('cb, 's) system \<Rightarrow> ('cb, 'o, 's) engine_call list
     \<Rightarrow> nat" where
  "unattached_round_trips topic2SubName n s [] = 0"
| "unattached_round_trips topic2SubName n s (c # cs) =
     (if ends_unattached n s c then 1 else 0)
     + unattached_round_trips topic2SubName n (step topic2SubName s c) cs"

text \<open>
  The steps at which the listeners of a name go from one to none while a handle is
  attached for it.
\<close>

fun attached_one_to_zero ::
  "(string \<Rightarrow> 'o option \<Rightarrow> string) \<Rightarrow> string \<Rightarrow> ('cb, 's) system \<Rightarrow> ('cb, 'o, 's) engine_call list
     \<Rightarrow> nat" where
  "attached_one_to_zero topic2SubName n s [] = 0"
| "attached_one_to_zero topic2SubName n s (c # cs) =
     (if listeners n (engine s) = 1 \<and> listeners n (engine (step topic2SubName s c)) = 0
         \<and> attached n (engine s) = 1
      then 1 else 0)
     + attached_one_to_zero topic2SubName n (step topic2SubName s c) cs"

text \<open>
  A run in which no \<open>subscribe\<close> starts a broker round trip for a name while an earlier
  round trip for that name is still pending.
\<close>

fun starts_no_second_round_trip ::
  "(string \<Rightarrow> 'o option \<Rightarrow> string) \<Rightarrow> ('cb, 's) system \<Rightarrow> ('cb, 'o, 's) engine_call \<Rightarrow> bool" where
  "starts_no_second_round_trip topic2SubName s (Subscribe topicName onMessage options) =
     (listeners (topic2SubName topicName options) (engine s) > 0
      \<or> pending_round_trips (topic2SubName topicName options) s = 0)"
| "starts_no_second_round_trip topic2SubName s (GetSubscriptionSettled clientId outcome) = True"
| "starts_no_second_round_trip topic2SubName s (Unsubscribe subId) = True"

fun one_round_trip_at_a_time ::
  "(string \<Rightarrow> 'o option \<Rightarrow> string) \<Rightarrow> ('cb, 's) system \<Rightarrow> ('cb, 'o, 's) engine_call list \<Rightarrow> bool" where
  "one_round_trip_at_a_time topic2SubName s [] = True"
| "one_round_trip_at_a_time topic2SubName s (c # cs) =
     (starts_no_second_round_trip topic2SubName s c
      \<and> one_round_trip_at_a_time topic2SubName (step topic2SubName s c) cs)"

text \<open>
  The balance of a name in a state: at most one round trip is pending for it, none is
  pending while a handle is attached, and the attach calls made so far are the detach
  calls plus the handle now attached.
\<close>

definition balanced :: "string \<Rightarrow> ('cb, 's) system \<Rightarrow> bool" where
  "balanced n s =
     (pending_round_trips n s \<le> 1
      \<and> (attached n (engine s) = 0 \<or> pending_round_trips n s = 0)
      \<and> attach_calls n (trace s) = detach_calls n (trace s) + attached n (engine s))"

text \<open>
  The states a run from a new engine can reach keep the two tables consistent: the ids
  listed under a name are exactly the listeners recorded with that name, no list is empty
  or repeats an id, and every recorded id has been issued.
\<close>

definition consistent :: "('cb, 's) GooglePubSub \<Rightarrow> bool" where
  "consistent e =
     ((\<forall>n en. googleSubName2GoogleSubAndClientIds e n = Some en \<longrightarrow>
          ids en \<noteq> [] \<and> distinct (ids en) \<and>
          (\<forall>i \<in> set (ids en). \<exists>cb. clientId2GoogleSubNameAndClientCallback e i = Some (n, cb))) \<and>
      (\<forall>i n cb. clientId2GoogleSubNameAndClientCallback e i = Some (n, cb) \<longrightarrow>
          i < currentClientId e \<and>
          (\<exists>en. googleSubName2GoogleSubAndClientIds e n = Some en \<and> i \<in> set (ids en))))"

section \<open>The bridge (class AsyncIterator)\<close>

text \<open>
  A promise handed to the consumer is named by a number chosen by the caller. What a
  bridge does to the outside is a list of observations in order: a call on a broker
  handle, or the settling of a consumer's promise. \<open>{value: v, done: false}\<close> is
  \<open>IteratorResult (Some v) False\<close> and \<open>{value: undefined, done: true}\<close> is
  \<open>IteratorResult None True\<close>.
\<close>

datatype 'v IteratorResult = IteratorResult (result_value: "'v option") (result_done: bool)

datatype ('s, 'v) observation =
    BrokerCall "'s broker_call"
  | Resolved nat "'v IteratorResult"
  | Rejected nat error

datatype 'v iterator_call = Next nat | Return nat | Throw nat error | PushValue 'v

text \<open>
  The fields of the class. \<open>pullQueue\<close> holds the resolve functions of the promises that
  \<open>pullValue\<close> created, by the names of those promises. \<open>allSubscribed\<close> is \<open>None\<close>
  while the promise is pending. Every method runs its body in a \<open>then\<close> of
  \<open>allSubscribed\<close>; \<open>waiting\<close> holds the calls made while it is pending, which run in
  the order they were made once it is fulfilled.
\<close>

record 'v AsyncIterator =
  pullQueue :: "nat list"
  pushQueue :: "'v list"
  listening :: bool
  eventsArray :: "string list"
  allSubscribed :: "(error + nat list) option"
  waiting :: "'v iterator_call list"

definition new_AsyncIterator :: "string + string list \<Rightarrow> 'v AsyncIterator" where
  "new_AsyncIterator subNames =
     \<lparr>pullQueue = [], pushQueue = [], listening = True,
      eventsArray = (case subNames of Inl name \<Rightarrow> [name] | Inr names \<Rightarrow> names),
      allSubscribed = None, waiting = []\<rparr>"

text \<open>
  \<open>subscribeAll\<close>: one \<open>subscribe\<close> call per entry of \<open>eventsArray\<close>, in order, with the
  same callback. The constructor calls it before it assigns \<open>this.options\<close>, so the
  options passed are \<open>undefined\<close>. The result lists the promises, each named by the
  listener id its call allocated.
\<close>

fun subscribeAll ::
  "(string \<Rightarrow> 'o option \<Rightarrow> string) \<Rightarrow> ('cb, 's) system \<Rightarrow> 'cb \<Rightarrow> string list
     \<Rightarrow> nat list \<times> ('cb, 's) system" where
  "subscribeAll topic2SubName s pushValue [] = ([], s)"
| "subscribeAll topic2SubName s pushValue (eventName # rest) =
     (case subscribeAll topic2SubName
             (step topic2SubName s (Subscribe eventName pushValue None)) pushValue rest of
        (ps, s') \<Rightarrow> (currentClientId (engine s) # ps, s'))"

text \<open>
  \<open>Promise.all\<close> over a list of promises, given the promises settled so far in the order
  they settled: rejected with the first rejection; fulfilled with the values in the order
  of the list once every promise is fulfilled; pending (\<open>None\<close>) otherwise.
\<close>

fun first_rejection :: "(nat \<times> (error + 'a)) list \<Rightarrow> error option" where
  "first_rejection [] = None"
| "first_rejection ((p, Inl err) # rest) = Some err"
| "first_rejection ((p, Inr v) # rest) = first_rejection rest"

fun fulfilment :: "(nat \<times> (error + 'a)) list \<Rightarrow> nat \<Rightarrow> 'a option" where
  "fulfilment [] p = None"
| "fulfilment ((q, Inl err) # rest) p = fulfilment rest p"
| "fulfilment ((q, Inr v) # rest) p = (if q = p then Some v else fulfilment rest p)"

definition Promise_all :: "nat list \<Rightarrow> (nat \<times> (error + 'a)) list \<Rightarrow> (error + 'a list) option" where
  "Promise_all promises settlements =
     (case first_rejection (filter (\<lambda>(p, r). p \<in> set promises) settlements) of
        Some err \<Rightarrow> Some (Inl err)
      | None \<Rightarrow>
          (case those (map (fulfilment settlements) promises) of
             None \<Rightarrow> None
           | Some vs \<Rightarrow> Some (Inr vs)))"

text \<open>The body of \<open>pushValue\<close>'s \<open>then\<close> callback.\<close>

definition pushValue :: "'v AsyncIterator \<Rightarrow> 'v \<Rightarrow> 'v AsyncIterator \<times> ('s, 'v) observation list" where
  "pushValue b event =
     (case pullQueue b of
        resolve # pulls \<Rightarrow> (b\<lparr>pullQueue := pulls\<rparr>, [Resolved resolve (IteratorResult (Some event) False)])
      | [] \<Rightarrow> (b\<lparr>pushQueue := pushQueue b @ [event]\<rparr>, []))"

text \<open>\<open>pullValue\<close>, for the promise \<open>p\<close> it creates.\<close>

definition pullValue :: "'v AsyncIterator \<Rightarrow> nat \<Rightarrow> 'v AsyncIterator \<times> ('s, 'v) observation list" where
  "pullValue b p =
     (case pushQueue b of
        res # pushes \<Rightarrow> (b\<lparr>pushQueue := pushes\<rparr>, [Resolved p (IteratorResult (Some res) False)])
      | [] \<Rightarrow> (b\<lparr>pullQueue := pullQueue b @ [p]\<rparr>, []))"

text \<open>\<open>unsubscribeAll\<close>: the loop ends at the first \<open>unsubscribe\<close> that throws.\<close>

fun unsubscribeAll ::
  "('cb, 's) GooglePubSub \<Rightarrow> nat list
     \<Rightarrow> error option \<times> ('cb, 's) GooglePubSub \<times> 's broker_call list" where
  "unsubscribeAll e [] = (None, e, [])"
| "unsubscribeAll e (subscriptionId # rest) =
     (case unsubscribe e subscriptionId of
        (Inl err, e', cs) \<Rightarrow> (Some err, e', cs)
      | (Inr u, e', cs) \<Rightarrow>
          (case unsubscribeAll e' rest of (r, e'', cs') \<Rightarrow> (r, e'', cs @ cs')))"

text \<open>
  \<open>emptyQueue\<close>. When \<open>unsubscribeAll\<close> throws, \<open>listening\<close> is already false and the
  statements after the call do not run.
\<close>

definition emptyQueue ::
  "('cb, 's) GooglePubSub \<Rightarrow> 'v AsyncIterator \<Rightarrow> nat list
     \<Rightarrow> error option \<times> ('cb, 's) GooglePubSub \<times> 'v AsyncIterator \<times> ('s, 'v) observation list" where
  "emptyQueue e b subscriptionIds =
     (if listening b then
        (case unsubscribeAll e subscriptionIds of
           (Some err, e', cs) \<Rightarrow> (Some err, e', b\<lparr>listening := False\<rparr>, map BrokerCall cs)
         | (None, e', cs) \<Rightarrow>
             (None, e', b\<lparr>listening := False, pullQueue := [], pushQueue := []\<rparr>,
              map BrokerCall cs
              @ map (\<lambda>resolve. Resolved resolve (IteratorResult None True)) (pullQueue b)))
      else (None, e, b, []))"

text \<open>
  The \<open>then\<close> callbacks of \<open>return\<close>, \<open>throw\<close> and \<open>next\<close>, run with the value \<open>subs\<close>
  of \<open>allSubscribed\<close>, each for the promise \<open>p\<close> the method returned. A callback that
  throws rejects that promise. On a bridge that is not listening, the callback of \<open>next\<close>
  returns \<open>this.return()\<close>, whose own callback runs one turn of the job queue later;
  \<open>listening\<close> is never set back to true, so that callback finds it false whenever it
  runs and changes nothing, and it is run here at once.
\<close>

definition return_then ::
  "('cb, 's) GooglePubSub \<Rightarrow> 'v AsyncIterator \<Rightarrow> nat list \<Rightarrow> nat
     \<Rightarrow> ('cb, 's) GooglePubSub \<times> 'v AsyncIterator \<times> ('s, 'v) observation list" where
  "return_then e b subs p =
     (case emptyQueue e b subs of
        (Some err, e', b', out) \<Rightarrow> (e', b', out @ [Rejected p err])
      | (None, e', b', out) \<Rightarrow> (e', b', out @ [Resolved p (IteratorResult None True)]))"

definition throw_then ::
  "('cb, 's) GooglePubSub \<Rightarrow> 'v AsyncIterator \<Rightarrow> nat list \<Rightarrow> nat \<Rightarrow> error
     \<Rightarrow> ('cb, 's) GooglePubSub \<times> 'v AsyncIterator \<times> ('s, 'v) observation list" where
  "throw_then e b subs p error =
     (case emptyQueue e b subs of
        (Some err, e', b', out) \<Rightarrow> (e', b', out @ [Rejected p err])
      | (None, e', b', out) \<Rightarrow> (e', b', out @ [Rejected p error]))"

definition next_then ::
  "('cb, 's) GooglePubSub \<Rightarrow> 'v AsyncIterator \<Rightarrow> nat list \<Rightarrow> nat
     \<Rightarrow> ('cb, 's) GooglePubSub \<times> 'v AsyncIterator \<times> ('s, 'v) observation list" where
  "next_then e b subs p =
     (if listening b then (case pullValue b p of (b', out) \<Rightarrow> (e, b', out))
      else return_then e b subs p)"

fun iterator_then ::
  "('cb, 's) GooglePubSub \<Rightarrow> 'v AsyncIterator \<Rightarrow> nat list \<Rightarrow> 'v iterator_call
     \<Rightarrow> ('cb, 's) GooglePubSub \<times> 'v AsyncIterator \<times> ('s, 'v) observation list" where
  "iterator_then e b subs (Next p) = next_then e b subs p"
| "iterator_then e b subs (Return p) = return_then e b subs p"
| "iterator_then e b subs (Throw p error) = throw_then e b subs p error"
| "iterator_then e b subs (PushValue event) = (case pushValue b event of (b', out) \<Rightarrow> (e, b', out))"

text \<open>
  What a rejected \<open>allSubscribed\<close> does to a call: the promise the method returned is
  rejected with the same error and the callback never runs; \<open>pushValue\<close> returns nothing.
\<close>

fun iterator_rejected :: "error \<Rightarrow> 'v iterator_call \<Rightarrow> ('s, 'v) observation list" where
  "iterator_rejected err (Next p) = [Rejected p err]"
| "iterator_rejected err (Return p) = [Rejected p err]"
| "iterator_rejected err (Throw p error) = [Rejected p err]"
| "iterator_rejected err (PushValue event) = []"

text \<open>
  A method call on the bridge, against the engine as it is at that moment. With
  \<open>allSubscribed\<close> fulfilled the callbacks of successive calls run in the order of the
  calls, each as one uninterrupted job; the call and its callback are one step here.
\<close>

definition iterator_call ::
  "('cb, 's) GooglePubSub \<Rightarrow> 'v AsyncIterator \<Rightarrow> 'v iterator_call
     \<Rightarrow> ('cb, 's) GooglePubSub \<times> 'v AsyncIterator \<times> ('s, 'v) observation list" where
  "iterator_call e b c =
     (case allSubscribed b of
        None \<Rightarrow> (e, b\<lparr>waiting := waiting b @ [c]\<rparr>, [])
      | Some (Inl err) \<Rightarrow> (e, b, iterator_rejected err c)
      | Some (Inr subs) \<Rightarrow> iterator_then e b subs c)"

fun iterator_calls ::
  "('cb, 's) GooglePubSub \<Rightarrow> 'v AsyncIterator \<Rightarrow> 'v iterator_call list
     \<Rightarrow> ('cb, 's) GooglePubSub \<times> 'v AsyncIterator \<times> ('s, 'v) observation list" where
  "iterator_calls e b [] = (e, b, [])"
| "iterator_calls e b (c # cs) =
     (case iterator_call e b c of
        (e', b', out) \<Rightarrow>
          (case iterator_calls e' b' cs of (e'', b'', out') \<Rightarrow> (e'', b'', out @ out')))"

text \<open>\<open>allSubscribed\<close> settles: the calls that waited for it run in order.\<close>

definition settle_allSubscribed ::
  "('cb, 's) GooglePubSub \<Rightarrow> 'v AsyncIterator \<Rightarrow> error + nat list
     \<Rightarrow> ('cb, 's) GooglePubSub \<times> 'v AsyncIterator \<times> ('s, 'v) observation list" where
  "settle_allSubscribed e b outcome =
     iterator_calls e (b\<lparr>allSubscribed := Some outcome, waiting := []\<rparr>) (waiting b)"

text \<open>At most one of the two queues holds anything.\<close>

definition queues_exclusive :: "'v AsyncIterator \<Rightarrow> bool" where
  "queues_exclusive b = (pullQueue b = [] \<or> pushQueue b = [])"

text \<open>The observations that hand a pushed value to the consumer.\<close>

fun yields_value :: "('s, 'v) observation \<Rightarrow> bool" where
  "yields_value (Resolved p r) = (result_value r \<noteq> None \<or> \<not> result_done r)"
| "yields_value (BrokerCall c) = False"
| "yields_value (Rejected p err) = False"

fun is_BrokerCall :: "('s, 'v) observation \<Rightarrow> bool" where
  "is_BrokerCall (BrokerCall c) = True"
| "is_BrokerCall (Resolved p r) = False"
| "is_BrokerCall (Rejected p err) = False"

text \<open>The effects that are calls of a delivery callback.\<close>

fun is_OnMessage :: "('m, 'v, 'cb) effect \<Rightarrow> bool" where
  "is_OnMessage (OnMessage i onMessage res) = True"
| "is_OnMessage (Ack message) = False"
| "is_OnMessage (CommonMessageHandler message) = False"

text \<open>
  For a bridge whose \<open>listening\<close> is false and whose \<open>pullQueue\<close> is empty: what a call
  answers, and the values a list of calls pushes.
\<close>

fun closed_answer :: "'v iterator_call \<Rightarrow> ('s, 'v) observation list" where
  "closed_answer (Next p) = [Resolved p (IteratorResult None True)]"
| "closed_answer (Return p) = [Resolved p (IteratorResult None True)]"
| "closed_answer (Throw p error) = [Rejected p error]"
| "closed_answer (PushValue event) = []"

fun pushed_values :: "'v iterator_call list \<Rightarrow> 'v list" where
  "pushed_values [] = []"
| "pushed_values (PushValue event # cs) = event # pushed_values cs"
| "pushed_values (c # cs) = pushed_values cs"

section \<open>Example runs\<close>

text \<open>
  Concrete calls used to evaluate the model: delivery callbacks and broker handles are
  numbers, the naming function is the default one.
\<close>

definition posts :: "(nat, unit, nat) engine_call list" where
  "posts = [Subscribe ''Posts'' 7 None]"

definition late_posts :: "(nat, unit, nat) engine_call list" where
  "late_posts = [Subscribe ''Posts'' 8 None]"

text \<open>
  The only listener of a name leaves before the broker round trip of its \<open>subscribe\<close>
  call ends.
\<close>

definition leave_before_round_trip :: "(nat, unit, nat) engine_call list" where
  "leave_before_round_trip =
     [Subscribe ''Posts'' 7 None, Unsubscribe 0, GetSubscriptionSettled 0 (Inr 5)]"

text \<open>
  Two listeners on \<open>Posts\<close>, the first with callback 7 and the second with callback 8,
  after the round trip of the first has attached the handlers.
\<close>

definition two_listeners :: "(nat, unit, nat) engine_call list" where
  "two_listeners =
     [Subscribe ''Posts'' 7 None, GetSubscriptionSettled 0 (Inr 5), Subscribe ''Posts'' 8 None]"

text \<open>
  A common message handler that returns the message (the constructor's default) and one
  that throws. Delivery callbacks that all return without touching the engine; delivery
  callbacks of which callback 7 throws; and delivery callbacks of which callback 7
  unsubscribes listener 1 and returns.
\<close>

definition identity_handler :: "nat \<Rightarrow> error + nat" where
  "identity_handler message = Inr message"

definition failing_handler :: "nat \<Rightarrow> error + nat" where
  "failing_handler message = Inl (Thrown ''transform'')"

definition all_return :: "nat \<Rightarrow> nat \<Rightarrow> nat \<Rightarrow> (nat, unit) callback_call list \<times> error option" where
  "all_return clientId onMessage res = ([], None)"

definition seven_throws :: "nat \<Rightarrow> nat \<Rightarrow> nat \<Rightarrow> (nat, unit) callback_call list \<times> error option" where
  "seven_throws clientId onMessage res =
     ([], if onMessage = 7 then Some (Thrown ''callback'') else None)"

definition seven_unsubscribes_next ::
  "nat \<Rightarrow> nat \<Rightarrow> nat \<Rightarrow> (nat, unit) callback_call list \<times> error option" where
  "seven_unsubscribes_next clientId onMessage res =
     (if onMessage = 7 then [CallUnsubscribe 1] else [], None)"

text \<open>
  An engine with one listener (id 0) on \<open>Posts\<close> whose handlers are attached, and a bridge
  over \<open>Posts\<close> that holds this listener and whose registration is fulfilled.
\<close>

definition posts_engine :: "(nat, nat) GooglePubSub" where
  "posts_engine =
     engine (run default_topic2SubName new_system
               [Subscribe ''Posts'' 7 (None :: unit option), GetSubscriptionSettled 0 (Inr 5)])"

definition posts_bridge :: "nat AsyncIterator" where
  "posts_bridge = (new_AsyncIterator (Inl ''Posts''))\<lparr>allSubscribed := Some (Inr [0])\<rparr>"

text \<open>
  A bridge over the topics \<open>t1\<close> and \<open>t2\<close> on a new engine: \<open>subscribeAll\<close> makes the
  two \<open>subscribe\<close> calls, then the broker round trip of the first one fails.
\<close>

definition failed_registration :: "(nat, nat) system" where
  "failed_registration =
     run (default_topic2SubName :: string \<Rightarrow> unit option \<Rightarrow> string)
       (snd (subscribeAll (default_topic2SubName :: string \<Rightarrow> unit option \<Rightarrow> string)
               new_system 7 [''t1'', ''t2'']))
       [GetSubscriptionSettled 0 (Inl (Thrown ''broker''))]"

text \<open>The bridge of that registration once \<open>allSubscribed\<close> is rejected, and calls made on it.\<close>

definition rejected_bridge :: "nat AsyncIterator" where
  "rejected_bridge =
     (new_AsyncIterator (Inr [''t1'', ''t2'']))\<lparr>allSubscribed := Some (Inl (Thrown ''broker''))\<rparr>"

definition calls_after_rejection :: "nat iterator_call list" where
  "calls_after_rejection = [PushValue 9, Next 1, Return 2, Throw 3 TypeError]"

text \<open>
  A listener comes, leaves after its round trip, and another one comes: one attach, one
  detach, one more attach.
\<close>

definition attach_detach_reattach :: "(nat, unit, nat) engine_call list" where
  "attach_detach_reattach =
     [Subscribe ''Posts'' 7 None, GetSubscriptionSettled 0 (Inr 5), Unsubscribe 0,
      Subscribe ''Posts'' 8 None, GetSubscriptionSettled 1 (Inr 5)]"

text \<open>
  The first listener leaves during its round trip and a second one comes before that round
  trip ends; then both round trips end and the second listener leaves.
\<close>

definition resubscribe_during_round_trip :: "(nat, unit, nat) engine_call list" where
  "resubscribe_during_round_trip =
     [Subscribe ''Posts'' 7 None, Unsubscribe 0, Subscribe ''Posts'' 8 None,
      GetSubscriptionSettled 0 (Inr 5), GetSubscriptionSettled 1 (Inr 5), Unsubscribe 1]"

text \<open>
  The engine of \<open>posts_engine\<close> after somebody else has unsubscribed listener 0, and the
  bridge that still holds this listener, with one pull pending.
\<close>

definition deserted_engine :: "(nat, nat) GooglePubSub" where
  "deserted_engine =
     engine (run default_topic2SubName new_system
               [Subscribe ''Posts'' 7 (None :: unit option), GetSubscriptionSettled 0 (Inr 5),
                Unsubscribe 0])"

definition pulling_bridge :: "nat AsyncIterator" where
  "pulling_bridge = posts_bridge\<lparr>pullQueue := [4]\<rparr>"

definition buffering_bridge :: "nat AsyncIterator" where
  "buffering_bridge = posts_bridge\<lparr>pushQueue := [9]\<rparr>"

text \<open>A first listener whose broker round trip fails.\<close>

definition round_trip_fails :: "(nat, unit, nat) engine_call list" where
  "round_trip_fails =
     [Subscribe ''Posts'' 7 None, GetSubscriptionSettled 0 (Inl (Thrown ''broker''))]"

section \<open>Properties of the engine\<close>

subsection \<open>Basic facts about the three operations\<close>

lemma unsubscribe_unknown:
  "clientId2GoogleSubNameAndClientCallback e subId = None \<Longrightarrow>
   unsubscribe e subId = (Inl (NoSubscriptionOfIdError subId), e, [])"
  by (simp add: unsubscribe_def)

lemma unsubscribe_removes_record:
  "unsubscribe e subId = (Inr u, e', out) \<Longrightarrow> clientId2GoogleSubNameAndClientCallback e' subId = None"
  by (auto simp: unsubscribe_def split: option.splits if_splits prod.splits)

lemma unsubscribe_failure_keeps_state:
  "unsubscribe e subId = (Inl err, e', out) \<Longrightarrow> e' = e \<and> out = [] \<and> err = NoSubscriptionOfIdError subId"
  by (auto simp: unsubscribe_def split: option.splits if_splits prod.splits)

lemma subscribe_currentClientId:
  "subscribe t e topicName cb opts = (r, e') \<Longrightarrow> currentClientId e' = Suc (currentClientId e)"
  by (auto simp: subscribe_def Let_def split: if_splits)

lemma subscribe_records:
  "subscribe t e topicName cb opts = (r, e') \<Longrightarrow>
   clientId2GoogleSubNameAndClientCallback e' =
     (clientId2GoogleSubNameAndClientCallback e)(currentClientId e \<mapsto> (t topicName opts, cb))"
  by (auto simp: subscribe_def Let_def split: if_splits)

lemma subscribe_resume_records:
  "subscribe_resume e fr outcome = (r, e', out) \<Longrightarrow>
   clientId2GoogleSubNameAndClientCallback e' = clientId2GoogleSubNameAndClientCallback e
   \<and> currentClientId e' = currentClientId e"
  by (auto simp: subscribe_resume_def split: sum.splits option.splits if_splits)

lemma unsubscribe_records:
  "unsubscribe e subId = (r, e', out) \<Longrightarrow>
   currentClientId e' = currentClientId e \<and>
   (clientId2GoogleSubNameAndClientCallback e' = clientId2GoogleSubNameAndClientCallback e \<or>
    clientId2GoogleSubNameAndClientCallback e' = (clientId2GoogleSubNameAndClientCallback e)(subId := None))"
  by (auto simp: unsubscribe_def split: option.splits if_splits prod.splits)

lemma indexOf_remove1:
  "(case indexOf xs x of None \<Rightarrow> xs | Some index \<Rightarrow> without_index xs index) = remove1 x xs"
  by (induction xs) (auto simp: without_index_def split: option.splits)

lemma consistent_constructor: "consistent constructor"
  by (simp add: consistent_def constructor_def)

lemma consistent_ids:
  "consistent e \<Longrightarrow> googleSubName2GoogleSubAndClientIds e n = Some en \<Longrightarrow>
   ids en \<noteq> [] \<and> distinct (ids en)"
  unfolding consistent_def by blast

lemma consistent_listed:
  "consistent e \<Longrightarrow> googleSubName2GoogleSubAndClientIds e n = Some en \<Longrightarrow> i \<in> set (ids en) \<Longrightarrow>
   \<exists>cb. clientId2GoogleSubNameAndClientCallback e i = Some (n, cb)"
  unfolding consistent_def by blast

lemma consistent_issued:
  "consistent e \<Longrightarrow> clientId2GoogleSubNameAndClientCallback e i = Some (n, cb) \<Longrightarrow> i < currentClientId e"
  unfolding consistent_def by blast

lemma consistent_recorded:
  "consistent e \<Longrightarrow> clientId2GoogleSubNameAndClientCallback e i = Some (n, cb) \<Longrightarrow>
   \<exists>en. googleSubName2GoogleSubAndClientIds e n = Some en \<and> i \<in> set (ids en)"
  unfolding consistent_def by blast

lemma consistent_subscribe:
  assumes c: "consistent e" and s: "subscribe t e topicName cb opts = (r, e')"
  shows "consistent e'"
proof -
  let ?n = "t topicName opts"
  let ?i = "currentClientId e"
  have fresh: "clientId2GoogleSubNameAndClientCallback e ?i = None"
  proof (cases "clientId2GoogleSubNameAndClientCallback e ?i")
    case (Some a)
    with consistent_issued[OF c, of ?i "fst a" "snd a"] show ?thesis by simp
  qed simp
  have notin: "\<And>n en. googleSubName2GoogleSubAndClientIds e n = Some en \<Longrightarrow> ?i \<notin> set (ids en)"
    using consistent_listed[OF c] fresh by fastforce
  have e': "e' = e\<lparr>currentClientId := ?i + 1,
                 clientId2GoogleSubNameAndClientCallback :=
                   (clientId2GoogleSubNameAndClientCallback e)(?i \<mapsto> (?n, cb)),
                 googleSubName2GoogleSubAndClientIds :=
                   (googleSubName2GoogleSubAndClientIds e)(?n \<mapsto>
                     (case googleSubName2GoogleSubAndClientIds e ?n of
                        None \<Rightarrow> \<lparr>sub = None, messageHandler = None, errorHandler = None, ids = []\<rparr>
                      | Some en \<Rightarrow> en)
                     \<lparr>ids := (case googleSubName2GoogleSubAndClientIds e ?n of None \<Rightarrow> [] | Some en \<Rightarrow> ids en) @ [?i]\<rparr>)\<rparr>"
    using s by (auto simp: subscribe_def Let_def split: if_splits)
  show ?thesis
    unfolding consistent_def
  proof (intro conjI allI impI)
    fix n en assume h: "googleSubName2GoogleSubAndClientIds e' n = Some en"
    show "ids en \<noteq> []" using h unfolding e'
      by (auto split: if_splits option.splits dest: consistent_ids[OF c])
    show "distinct (ids en)" using h notin unfolding e'
      by (auto split: if_splits option.splits dest: consistent_ids[OF c])
    show "\<forall>i\<in>set (ids en). \<exists>cb. clientId2GoogleSubNameAndClientCallback e' i = Some (n, cb)"
      using h notin unfolding e'
      by (auto split: if_splits option.splits dest: consistent_listed[OF c])
  next
    fix i n cb' assume h: "clientId2GoogleSubNameAndClientCallback e' i = Some (n, cb')"
    show "i < currentClientId e'" using h unfolding e'
      by (auto split: if_splits simp: less_Suc_eq dest: consistent_issued[OF c])
    show "\<exists>en. googleSubName2GoogleSubAndClientIds e' n = Some en \<and> i \<in> set (ids en)"
    proof (cases "i = ?i")
      case True
      with h show ?thesis unfolding e' by (auto split: option.splits)
    next
      case False
      with h have h': "clientId2GoogleSubNameAndClientCallback e i = Some (n, cb')"
        unfolding e' by simp
      from consistent_recorded[OF c h'] show ?thesis
        unfolding e' by (auto split: option.splits)
    qed
  qed
qed

lemma consistent_subscribe_resume:
  assumes c: "consistent e" and s: "subscribe_resume e fr outcome = (r, e', out)"
  shows "consistent e'"
proof (cases "e' = e")
  case True
  with c show ?thesis by simp
next
  case False
  with s obtain sb en where en: "googleSubName2GoogleSubAndClientIds e (frame_subName fr) = Some en"
    and e': "e' = e\<lparr>googleSubName2GoogleSubAndClientIds :=
                      (googleSubName2GoogleSubAndClientIds e)(frame_subName fr \<mapsto>
                         en\<lparr>messageHandler := Some (frame_id fr),
                            errorHandler := Some (frame_id fr),
                            sub := Some sb\<rparr>)\<rparr>"
    by (auto simp: subscribe_resume_def split: sum.splits option.splits if_splits)
  show ?thesis unfolding consistent_def
  proof (intro conjI allI impI)
    fix n em assume h: "googleSubName2GoogleSubAndClientIds e' n = Some em"
    show "ids em \<noteq> []" "distinct (ids em)"
      using h consistent_ids[OF c] en unfolding e' by (auto split: if_splits)
    show "\<forall>i\<in>set (ids em). \<exists>cb. clientId2GoogleSubNameAndClientCallback e' i = Some (n, cb)"
      using h consistent_listed[OF c] en unfolding e' by (auto split: if_splits)
  next
    fix i n cb' assume h: "clientId2GoogleSubNameAndClientCallback e' i = Some (n, cb')"
    then have h': "clientId2GoogleSubNameAndClientCallback e i = Some (n, cb')" unfolding e' by simp
    show "i < currentClientId e'" using consistent_issued[OF c h'] unfolding e' by simp
    from consistent_recorded[OF c h'] en
    show "\<exists>en. googleSubName2GoogleSubAndClientIds e' n = Some en \<and> i \<in> set (ids en)"
      unfolding e' by auto
  qed
qed

lemma consistent_unsubscribe:
  assumes c: "consistent e" and s: "unsubscribe e subId = (r, e', out)"
  shows "consistent e'"
proof (cases "e' = e")
  case True
  with c show ?thesis by simp
next
  case False
  with s obtain n cb en where
    rec: "clientId2GoogleSubNameAndClientCallback e subId = Some (n, cb)" and
    en: "googleSubName2GoogleSubAndClientIds e n = Some en"
    by (auto simp: unsubscribe_def split: option.splits if_splits prod.splits)
  from c rec en have mem: "subId \<in> set (ids en)" unfolding consistent_def by fastforce
  from c en have dist: "distinct (ids en)" and ne: "ids en \<noteq> []" unfolding consistent_def by auto
  have other: "\<And>m em. m \<noteq> n \<Longrightarrow> googleSubName2GoogleSubAndClientIds e m = Some em \<Longrightarrow> subId \<notin> set (ids em)"
    using c rec unfolding consistent_def by fastforce
  show ?thesis
  proof (cases "length (ids en) = 1")
    case True
    with mem have single: "ids en = [subId]" by (cases "ids en") auto
    from s rec en True False have e': "e' = e\<lparr>googleSubName2GoogleSubAndClientIds :=
                        (googleSubName2GoogleSubAndClientIds e)(n := None),
                      clientId2GoogleSubNameAndClientCallback :=
                        (clientId2GoogleSubNameAndClientCallback e)(subId := None)\<rparr>"
      by (auto simp: unsubscribe_def split: if_splits)
    show ?thesis unfolding consistent_def
    proof (intro conjI allI impI)
      fix m em assume h: "googleSubName2GoogleSubAndClientIds e' m = Some em"
      then have mn: "m \<noteq> n" and h': "googleSubName2GoogleSubAndClientIds e m = Some em"
        unfolding e' by (auto split: if_splits)
      show "ids em \<noteq> []" "distinct (ids em)" using c h' unfolding consistent_def by auto
      show "\<forall>i\<in>set (ids em). \<exists>cb. clientId2GoogleSubNameAndClientCallback e' i = Some (m, cb)"
        using c h' other[OF mn h'] unfolding e' consistent_def by auto
    next
      fix i m cb' assume h: "clientId2GoogleSubNameAndClientCallback e' i = Some (m, cb')"
      then have isub: "i \<noteq> subId" and h': "clientId2GoogleSubNameAndClientCallback e i = Some (m, cb')"
        unfolding e' by (auto split: if_splits)
      show "i < currentClientId e'" using c h' unfolding e' consistent_def by auto
      from c h' obtain em where em: "googleSubName2GoogleSubAndClientIds e m = Some em" "i \<in> set (ids em)"
        unfolding consistent_def by blast
      with en single isub have "m \<noteq> n" by auto
      with em show "\<exists>en. googleSubName2GoogleSubAndClientIds e' m = Some en \<and> i \<in> set (ids en)"
        unfolding e' by auto
    qed
  next
    case F2: False
    from s rec en F2 False have e': "e' = e\<lparr>googleSubName2GoogleSubAndClientIds :=
                        (googleSubName2GoogleSubAndClientIds e)(n \<mapsto> en\<lparr>ids := remove1 subId (ids en)\<rparr>),
                      clientId2GoogleSubNameAndClientCallback :=
                        (clientId2GoogleSubNameAndClientCallback e)(subId := None)\<rparr>"
      by (auto simp: unsubscribe_def indexOf_remove1 split: if_splits)
    from F2 ne have len: "length (ids en) \<ge> 2" by (cases "ids en") (auto simp: Suc_le_eq)
    have ne': "remove1 subId (ids en) \<noteq> []"
    proof
      assume "remove1 subId (ids en) = []"
      then have "length (remove1 subId (ids en)) = 0" by simp
      with mem len show False by (simp add: length_remove1)
    qed
    show ?thesis unfolding consistent_def
    proof (intro conjI allI impI)
      fix m em assume h: "googleSubName2GoogleSubAndClientIds e' m = Some em"
      show "ids em \<noteq> []" using h c ne' unfolding e' consistent_def by (auto split: if_splits)
      show "distinct (ids em)" using h c dist unfolding e' consistent_def by (auto split: if_splits)
      show "\<forall>i\<in>set (ids em). \<exists>cb. clientId2GoogleSubNameAndClientCallback e' i = Some (m, cb)"
      proof (cases "m = n")
        case True
        with h have "ids em = remove1 subId (ids en)" unfolding e' by auto
        with dist c en True show ?thesis unfolding e' consistent_def by auto
      next
        case False
        with h have h': "googleSubName2GoogleSubAndClientIds e m = Some em" unfolding e' by auto
        with c other[OF False h'] show ?thesis unfolding e' consistent_def by auto
      qed
    next
      fix i m cb' assume h: "clientId2GoogleSubNameAndClientCallback e' i = Some (m, cb')"
      then have isub: "i \<noteq> subId" and h': "clientId2GoogleSubNameAndClientCallback e i = Some (m, cb')"
        unfolding e' by (auto split: if_splits)
      show "i < currentClientId e'" using c h' unfolding e' consistent_def by auto
      from c h' obtain em where em: "googleSubName2GoogleSubAndClientIds e m = Some em" "i \<in> set (ids em)"
        unfolding consistent_def by blast
      show "\<exists>en. googleSubName2GoogleSubAndClientIds e' m = Some en \<and> i \<in> set (ids en)"
      proof (cases "m = n")
        case True
        with em en isub show ?thesis unfolding e' by auto
      next
        case False
        with em show ?thesis unfolding e' by auto
      qed
    qed
  qed
qed

lemma consistent_step: "consistent (engine s) \<Longrightarrow> consistent (engine (step t s c))"
proof (cases c)
  case (Subscribe topicName cb opts)
  assume a: "consistent (engine s)"
  obtain r e' where sub: "subscribe t (engine s) topicName cb opts = (r, e')" by force
  from consistent_subscribe[OF a sub] sub Subscribe show ?thesis by (cases r) auto
next
  case (GetSubscriptionSettled i outcome)
  assume a: "consistent (engine s)"
  show ?thesis
  proof (cases "find (\<lambda>fr. frame_id fr = i) (suspended s)")
    case None
    with a GetSubscriptionSettled show ?thesis by simp
  next
    case (Some fr)
    obtain r e' out where res: "subscribe_resume (engine s) fr outcome = (r, e', out)"
      by (cases "subscribe_resume (engine s) fr outcome") auto
    from consistent_subscribe_resume[OF a res] Some res GetSubscriptionSettled show ?thesis by simp
  qed
next
  case (Unsubscribe i)
  assume a: "consistent (engine s)"
  obtain r e' out where res: "unsubscribe (engine s) i = (r, e', out)"
    by (cases "unsubscribe (engine s) i") auto
  from consistent_unsubscribe[OF a res] res Unsubscribe show ?thesis by simp
qed

lemma consistent_run: "consistent (engine s) \<Longrightarrow> consistent (engine (run t s cs))"
  by (induction cs arbitrary: s) (auto intro: consistent_step)

lemma consistent_reachable: "consistent (engine (run t new_system cs))"
  by (rule consistent_run) (simp add: new_system_def consistent_constructor)

lemma run_append: "run t s (xs @ ys) = run t (run t s xs) ys"
  by (induction xs arbitrary: s) auto

lemma step_retired:
  assumes "clientId2GoogleSubNameAndClientCallback (engine s) subId = None \<and> subId < currentClientId (engine s)"
  shows "clientId2GoogleSubNameAndClientCallback (engine (step t s c)) subId = None
         \<and> subId < currentClientId (engine (step t s c))"
proof (cases c)
  case (Subscribe topicName cb opts)
  obtain r e' where sub: "subscribe t (engine s) topicName cb opts = (r, e')" by force
  from assms subscribe_records[OF sub] subscribe_currentClientId[OF sub]
  have "clientId2GoogleSubNameAndClientCallback e' subId = None \<and> subId < currentClientId e'" by auto
  with sub Subscribe show ?thesis by (cases r) auto
next
  case (GetSubscriptionSettled i outcome)
  show ?thesis
  proof (cases "find (\<lambda>fr. frame_id fr = i) (suspended s)")
    case None
    with assms GetSubscriptionSettled show ?thesis by simp
  next
    case (Some fr)
    obtain r e' out where res: "subscribe_resume (engine s) fr outcome = (r, e', out)"
      by (cases "subscribe_resume (engine s) fr outcome") auto
    from subscribe_resume_records[OF res] assms
    have "clientId2GoogleSubNameAndClientCallback e' subId = None \<and> subId < currentClientId e'" by auto
    with Some res GetSubscriptionSettled show ?thesis by simp
  qed
next
  case (Unsubscribe i)
  obtain r e' out where res: "unsubscribe (engine s) i = (r, e', out)"
    by (cases "unsubscribe (engine s) i") auto
  from unsubscribe_records[OF res] assms
  have "clientId2GoogleSubNameAndClientCallback e' subId = None \<and> subId < currentClientId e'" by auto
  with res Unsubscribe show ?thesis by simp
qed

lemma run_retired:
  "clientId2GoogleSubNameAndClientCallback (engine s) subId = None \<and> subId < currentClientId (engine s) \<Longrightarrow>
   clientId2GoogleSubNameAndClientCallback (engine (run t s cs)) subId = None
   \<and> subId < currentClientId (engine (run t s cs))"
proof (induction cs arbitrary: s)
  case Nil
  then show ?case by simp
next
  case (Cons c cs)
  from Cons.IH[OF step_retired[OF Cons.prems]] show ?case by simp
qed

lemma never_issued_unknown:
  "currentClientId (engine (run t new_system cs)) \<le> subId \<Longrightarrow>
   clientId2GoogleSubNameAndClientCallback (engine (run t new_system cs)) subId = None"
proof (cases "clientId2GoogleSubNameAndClientCallback (engine (run t new_system cs)) subId")
  case (Some a)
  assume le: "currentClientId (engine (run t new_system cs)) \<le> subId"
  from consistent_issued[OF consistent_reachable, of t cs subId "fst a" "snd a"] Some le
  show ?thesis by simp
qed simp

lemma removed_stays_unknown:
  assumes ok: "fst (unsubscribe (engine (run t new_system cs1)) subId) = Inr ()"
  shows "clientId2GoogleSubNameAndClientCallback
           (engine (run t new_system (cs1 @ Unsubscribe subId # cs2))) subId = None"
proof -
  let ?s1 = "run t new_system cs1"
  obtain r e' out where res: "unsubscribe (engine ?s1) subId = (r, e', out)"
    by (cases "unsubscribe (engine ?s1) subId") auto
  with ok have r: "r = Inr ()" by simp
  from res r have gone: "clientId2GoogleSubNameAndClientCallback e' subId = None"
    by (auto dest: unsubscribe_removes_record)
  from res r obtain n cb where rec: "clientId2GoogleSubNameAndClientCallback (engine ?s1) subId = Some (n, cb)"
    by (auto simp: unsubscribe_def split: option.splits)
  from consistent_issued[OF consistent_reachable rec] unsubscribe_records[OF res]
  have "subId < currentClientId e'" by simp
  with gone res have "clientId2GoogleSubNameAndClientCallback (engine (step t ?s1 (Unsubscribe subId))) subId = None
      \<and> subId < currentClientId (engine (step t ?s1 (Unsubscribe subId)))" by simp
  from run_retired[OF this, of t cs2] show ?thesis by (simp add: run_append)
qed

lemmas eval_defs = subscribe_def subscribe_resume_def unsubscribe_def new_system_def constructor_def
  default_topic2SubName_def Let_def

subsection \<open>Unknown listener ids\<close>

text \<open>
  Claim C8. \<open>unsubscribe\<close> with an id that has no listener record fails with
  \<open>NoSubscriptionOfIdError\<close>, returns the engine it was given and makes no call on a
  broker handle. An id is in that position when it has never been issued (it is not below
  \<open>currentClientId\<close> in a state reached from a new engine), and when an earlier
  \<open>unsubscribe\<close> of it succeeded, whatever calls came after.
\<close>

theorem unsubscribe_unknown_id_fails:
  "(clientId2GoogleSubNameAndClientCallback e subId = None \<longrightarrow>
      unsubscribe e subId = (Inl (NoSubscriptionOfIdError subId), e, []))
   \<and> (currentClientId (engine (run t new_system cs)) \<le> subId \<longrightarrow>
      unsubscribe (engine (run t new_system cs)) subId
        = (Inl (NoSubscriptionOfIdError subId), engine (run t new_system cs), []))
   \<and> (fst (unsubscribe (engine (run t new_system cs1)) subId) = Inr () \<longrightarrow>
      unsubscribe (engine (run t new_system (cs1 @ Unsubscribe subId # cs2))) subId
        = (Inl (NoSubscriptionOfIdError subId),
           engine (run t new_system (cs1 @ Unsubscribe subId # cs2)), []))"
proof (intro conjI impI)
  assume "clientId2GoogleSubNameAndClientCallback e subId = None"
  then show "unsubscribe e subId = (Inl (NoSubscriptionOfIdError subId), e, [])"
    by (rule unsubscribe_unknown)
next
  assume "currentClientId (engine (run t new_system cs)) \<le> subId"
  then show "unsubscribe (engine (run t new_system cs)) subId
        = (Inl (NoSubscriptionOfIdError subId), engine (run t new_system cs), [])"
    by (intro unsubscribe_unknown never_issued_unknown)
next
  assume "fst (unsubscribe (engine (run t new_system cs1)) subId) = Inr ()"
  then show "unsubscribe (engine (run t new_system (cs1 @ Unsubscribe subId # cs2))) subId
        = (Inl (NoSubscriptionOfIdError subId),
           engine (run t new_system (cs1 @ Unsubscribe subId # cs2)), [])"
    by (intro unsubscribe_unknown removed_stays_unknown)
qed

theorem unsubscribe_unknown_id_fails_witness:
  "unsubscribe (constructor :: (nat, nat) GooglePubSub) 123 = (Inl (NoSubscriptionOfIdError 123), constructor, [])
   \<and> unsubscribe (engine (run default_topic2SubName new_system (posts @ Unsubscribe 0 # late_posts))) 0
      = (Inl (NoSubscriptionOfIdError 0),
         engine (run default_topic2SubName new_system (posts @ Unsubscribe 0 # late_posts)), [])"
proof -
  have a: "clientId2GoogleSubNameAndClientCallback (constructor :: (nat, nat) GooglePubSub) 123 = None"
    by (simp add: constructor_def)
  have b: "fst (unsubscribe (engine (run default_topic2SubName new_system posts)) 0) = Inr ()"
    by (simp add: eval_defs posts_def)
  note t1 = unsubscribe_unknown_id_fails[of "constructor :: (nat, nat) GooglePubSub" 123
      default_topic2SubName "[]" posts late_posts]
  note t2 = unsubscribe_unknown_id_fails[of "constructor :: (nat, nat) GooglePubSub" 0
      default_topic2SubName "[]" posts late_posts]
  note c1 = t1[THEN conjunct1, THEN mp, OF a]
  note c2 = t2[THEN conjunct2, THEN conjunct2, THEN mp, OF b]
  from c1 c2 show ?thesis by (intro conjI)
qed

subsection \<open>The last listener leaves during the round trip\<close>

lemma subscribe_resume_missing_entry:
  "googleSubName2GoogleSubAndClientIds e (frame_subName fr) = None \<Longrightarrow>
   subscribe_resume e fr (Inr s) = (Inl TypeError, e, [])"
  by (simp add: subscribe_resume_def)

text \<open>
  Claim C2, evaluated on the source. One \<open>subscribe\<close> to \<open>Posts\<close> on a new engine,
  \<open>unsubscribe(0)\<close> before the round trip ends, then the round trip ends with a handle:
  no call is made on the handle and the entry is absent, as the claim says, but the promise
  of \<open>subscribe\<close> is rejected with a TypeError instead of being fulfilled with the id 0,
  because \<open>unsubscribe\<close> has deleted the entry and the continuation reads \<open>ids.length\<close>
  of the empty object.
\<close>

theorem subscribe_rejects_when_listener_left:
  "settled (run default_topic2SubName new_system leave_before_round_trip) = [(0, Inl TypeError)]
   \<and> trace (run default_topic2SubName new_system leave_before_round_trip) = []
   \<and> googleSubName2GoogleSubAndClientIds
        (engine (run default_topic2SubName new_system leave_before_round_trip))
        ''Posts-subscription'' = None
   \<and> suspended (run default_topic2SubName new_system leave_before_round_trip) = []"
  by (simp add: eval_defs leave_before_round_trip_def)

section \<open>Properties of the message handler\<close>

lemma forEach_onMessage_effects:
  "forEach_onMessage t invoke s res xs = (r, s', effs) \<Longrightarrow> list_all is_OnMessage effs"
proof (induction xs arbitrary: s r s' effs)
  case Nil
  then show ?case by simp
next
  case (Cons i xs)
  then show ?case
    by (auto split: option.splits prod.splits)
qed

text \<open>
  Claim C9. The first effect of the handler is \<open>message.ack()\<close>, the second is the call of
  the common message handler, and everything after them is a call of a delivery callback:
  the message is acknowledged exactly once, before the transform and before any delivery.
  This is so for every state, every outcome of the transform and every behaviour of the
  callbacks; when the entry has no listeners, or when the transform fails, the two calls
  are all the handler does.
\<close>

theorem handleMessage_acknowledges_first:
  "(\<exists>r s' rest. handleMessage commonMessageHandler t invoke s subName message
                = (r, s', Ack message # CommonMessageHandler message # rest)
              \<and> list_all is_OnMessage rest)
   \<and> (googleSubName2GoogleSubAndClientIds (engine s) subName = None \<longrightarrow>
        snd (snd (handleMessage commonMessageHandler t invoke s subName message))
          = [Ack message, CommonMessageHandler message])
   \<and> (\<forall>err. commonMessageHandler message = Inl err \<longrightarrow>
        snd (snd (handleMessage commonMessageHandler t invoke s subName message))
          = [Ack message, CommonMessageHandler message])"
proof (intro conjI allI impI)
  show "\<exists>r s' rest. handleMessage commonMessageHandler t invoke s subName message
                = (r, s', Ack message # CommonMessageHandler message # rest)
              \<and> list_all is_OnMessage rest"
    by (auto simp: handleMessage_def handleMessage_resume_def
             split: sum.splits prod.splits dest: forEach_onMessage_effects)
next
  assume "googleSubName2GoogleSubAndClientIds (engine s) subName = None"
  then show "snd (snd (handleMessage commonMessageHandler t invoke s subName message))
          = [Ack message, CommonMessageHandler message]"
    by (simp add: handleMessage_def handleMessage_resume_def split: sum.splits)
next
  fix err assume "commonMessageHandler message = Inl err"
  then show "snd (snd (handleMessage commonMessageHandler t invoke s subName message))
          = [Ack message, CommonMessageHandler message]"
    by (simp add: handleMessage_def handleMessage_resume_def)
qed

theorem handleMessage_acknowledges_first_witness:
  "snd (snd (handleMessage failing_handler default_topic2SubName all_return
          (run default_topic2SubName new_system two_listeners) ''Posts-subscription'' 3))
     = [Ack 3, CommonMessageHandler 3]
   \<and> snd (snd (handleMessage identity_handler default_topic2SubName all_return
          (run default_topic2SubName new_system posts) ''Comments-subscription'' 3))
     = [Ack 3, CommonMessageHandler 3]"
proof -
  have a: "failing_handler 3 = Inl (Thrown ''transform'')" by (simp add: failing_handler_def)
  have b: "googleSubName2GoogleSubAndClientIds (engine (run default_topic2SubName new_system posts))
             ''Comments-subscription'' = None"
    by (simp add: eval_defs posts_def)
  note t1 = handleMessage_acknowledges_first[of failing_handler default_topic2SubName all_return
      "run default_topic2SubName new_system two_listeners" "''Posts-subscription''" 3]
  note t2 = handleMessage_acknowledges_first[of identity_handler default_topic2SubName all_return
      "run default_topic2SubName new_system posts" "''Comments-subscription''" 3]
  note c1 = t1[THEN conjunct2, THEN conjunct2, THEN spec, THEN mp, OF a]
  note c2 = t2[THEN conjunct2, THEN conjunct1, THEN mp, OF b]
  from c1 c2 show ?thesis by (intro conjI)
qed

text \<open>
  Claim C5, as amended. When the common message handler throws or rejects, no delivery
  callback is called, the state is left as it was, and the promise returned by the handler
  is rejected with that same error: the source has no \<open>try\<close> or \<open>catch\<close> around the
  transform and logs nothing, and nothing handles the rejection.
\<close>

theorem transform_error_rejects_handler:
  "commonMessageHandler message = Inl err \<Longrightarrow>
   handleMessage commonMessageHandler t invoke s subName message
     = (Inl err, s, [Ack message, CommonMessageHandler message])"
  by (simp add: handleMessage_def handleMessage_resume_def)

theorem transform_error_rejects_handler_witness:
  "failing_handler 3 = Inl (Thrown ''transform'')
   \<and> handleMessage failing_handler default_topic2SubName all_return
        (run default_topic2SubName new_system two_listeners) ''Posts-subscription'' 3
     = (Inl (Thrown ''transform''), run default_topic2SubName new_system two_listeners,
        [Ack 3, CommonMessageHandler 3])"
proof -
  have a: "failing_handler 3 = Inl (Thrown ''transform'')" by (simp add: failing_handler_def)
  from a transform_error_rejects_handler[of failing_handler 3 "Thrown ''transform''"
      default_topic2SubName all_return
      "run default_topic2SubName new_system two_listeners" "''Posts-subscription''"]
  show ?thesis by (intro conjI) simp_all
qed

text \<open>
  Claim C5 as stated fails: with a handler that throws, the promise of \<open>handleMessage\<close>
  is not fulfilled, so the error has not been caught.
\<close>

theorem transform_error_not_caught:
  "fst (handleMessage failing_handler default_topic2SubName all_return
          (run default_topic2SubName new_system two_listeners) ''Posts-subscription'' 3)
     \<noteq> Inr ()"
  by (simp add: handleMessage_def handleMessage_resume_def failing_handler_def)

subsection \<open>The fan-out\<close>

lemma step_keeps_record:
  assumes "j < currentClientId (engine s)" and "c \<noteq> Unsubscribe j"
  shows "clientId2GoogleSubNameAndClientCallback (engine (step t s c)) j
           = clientId2GoogleSubNameAndClientCallback (engine s) j
         \<and> j < currentClientId (engine (step t s c))"
proof (cases c)
  case (Subscribe topicName cb opts)
  obtain r e' where sub: "subscribe t (engine s) topicName cb opts = (r, e')" by force
  from assms subscribe_records[OF sub] subscribe_currentClientId[OF sub]
  have "clientId2GoogleSubNameAndClientCallback e' j = clientId2GoogleSubNameAndClientCallback (engine s) j
        \<and> j < currentClientId e'" by auto
  with sub Subscribe show ?thesis by (cases r) auto
next
  case (GetSubscriptionSettled i outcome)
  show ?thesis
  proof (cases "find (\<lambda>fr. frame_id fr = i) (suspended s)")
    case None
    with assms GetSubscriptionSettled show ?thesis by simp
  next
    case (Some fr)
    obtain r e' out where res: "subscribe_resume (engine s) fr outcome = (r, e', out)"
      by (cases "subscribe_resume (engine s) fr outcome") auto
    from subscribe_resume_records[OF res] assms Some res GetSubscriptionSettled
    show ?thesis by simp
  qed
next
  case (Unsubscribe i)
  with assms have ij: "i \<noteq> j" by simp
  obtain r e' out where res: "unsubscribe (engine s) i = (r, e', out)"
    by (cases "unsubscribe (engine s) i") auto
  from unsubscribe_records[OF res] assms ij
  have "clientId2GoogleSubNameAndClientCallback e' j = clientId2GoogleSubNameAndClientCallback (engine s) j
        \<and> j < currentClientId e'" by auto
  with res Unsubscribe show ?thesis by simp
qed

lemma run_keeps_record:
  assumes "j < currentClientId (engine s)" and "Unsubscribe j \<notin> set cs"
  shows "clientId2GoogleSubNameAndClientCallback (engine (run t s cs)) j
           = clientId2GoogleSubNameAndClientCallback (engine s) j
         \<and> j < currentClientId (engine (run t s cs))"
  using assms
proof (induction cs arbitrary: s)
  case Nil
  then show ?case by simp
next
  case (Cons c cs)
  from Cons.prems have c: "c \<noteq> Unsubscribe j" and rest: "Unsubscribe j \<notin> set cs" by auto
  from step_keeps_record[OF Cons.prems(1) c, of t]
  have k: "clientId2GoogleSubNameAndClientCallback (engine (step t s c)) j
           = clientId2GoogleSubNameAndClientCallback (engine s) j"
    and l: "j < currentClientId (engine (step t s c))" by simp_all
  from Cons.IH[OF l rest] k show ?case by simp
qed

lemma engine_call_of_Unsubscribe:
  "CallUnsubscribe j \<notin> set calls \<Longrightarrow> Unsubscribe j \<notin> set (map engine_call_of calls)"
proof (induction calls)
  case Nil
  then show ?case by simp
next
  case (Cons c calls)
  then show ?case by (cases c) auto
qed

lemma later_listeners_Cons:
  "k \<noteq> i \<Longrightarrow> later_listeners (i # xs) k = later_listeners xs k"
  by simp

lemma forEach_onMessage_served:
  fixes s :: "('cb, 's) system"
  assumes "consistent (engine s)" and "distinct (served @ unserved)"
    and "\<forall>i \<in> set (served @ unserved). \<exists>n cb. clientId2GoogleSubNameAndClientCallback (engine s) i = Some (n, cb)"
    and "\<forall>i \<in> set served. \<forall>n cb. clientId2GoogleSubNameAndClientCallback (engine s) i = Some (n, cb) \<longrightarrow>
           snd (invoke i cb res) = None
           \<and> (\<forall>j \<in> set (later_listeners (served @ unserved) i). CallUnsubscribe j \<notin> set (fst (invoke i cb res)))"
  shows "\<exists>s'. (\<forall>j \<in> set unserved. clientId2GoogleSubNameAndClientCallback (engine s') j
                   = clientId2GoogleSubNameAndClientCallback (engine s) j)
            \<and> (forEach_onMessage t invoke s res (served @ unserved)
                  :: (error + unit) \<times> ('cb, 's) system \<times> ('m, 'v, 'cb) effect list)
              = (case forEach_onMessage t invoke s' res unserved of
                   (r, s'', effs) \<Rightarrow>
                     (r, s'',
                      map (\<lambda>i. OnMessage i (snd (the (clientId2GoogleSubNameAndClientCallback (engine s) i))) res)
                        served @ effs))"
  using assms
proof (induction served arbitrary: s)
  case Nil
  show ?case by (rule exI[of _ s]) (simp split: prod.splits)
next
  case (Cons i served)
  let ?rest = "served @ unserved"
  from Cons.prems(3) have "\<exists>n cb. clientId2GoogleSubNameAndClientCallback (engine s) i = Some (n, cb)"
    by auto
  then obtain n cb where
    rec: "clientId2GoogleSubNameAndClientCallback (engine s) i = Some (n, cb)" by blast
  from Cons.prems(4) rec have ret: "snd (invoke i cb res) = None"
    and keep: "\<forall>j \<in> set ?rest. CallUnsubscribe j \<notin> set (fst (invoke i cb res))"
    by auto
  obtain calls where inv: "invoke i cb res = (calls, None)"
    using ret by (cases "invoke i cb res") auto
  let ?s1 = "run t s (map engine_call_of calls)"
  have c1: "consistent (engine ?s1)" using Cons.prems(1) by (rule consistent_run)
  have same: "\<forall>j \<in> set ?rest. clientId2GoogleSubNameAndClientCallback (engine ?s1) j
                 = clientId2GoogleSubNameAndClientCallback (engine s) j"
  proof
    fix j assume j: "j \<in> set ?rest"
    with Cons.prems(3) have "\<exists>m cbj. clientId2GoogleSubNameAndClientCallback (engine s) j = Some (m, cbj)"
      by auto
    then obtain m cbj where
      rj: "clientId2GoogleSubNameAndClientCallback (engine s) j = Some (m, cbj)" by blast
    from consistent_issued[OF Cons.prems(1) rj] have lt: "j < currentClientId (engine s)" .
    from keep j inv have "CallUnsubscribe j \<notin> set calls" by auto
    from run_keeps_record[OF lt engine_call_of_Unsubscribe[OF this], of t]
    show "clientId2GoogleSubNameAndClientCallback (engine ?s1) j
                 = clientId2GoogleSubNameAndClientCallback (engine s) j" by simp
  qed
  from Cons.prems(2) have d: "distinct ?rest" and ni: "i \<notin> set ?rest" by auto
  have p3: "\<forall>j \<in> set ?rest. \<exists>n cb. clientId2GoogleSubNameAndClientCallback (engine ?s1) j = Some (n, cb)"
    using Cons.prems(3) same by auto
  have p4: "\<forall>k \<in> set served. \<forall>n cb. clientId2GoogleSubNameAndClientCallback (engine ?s1) k = Some (n, cb) \<longrightarrow>
           snd (invoke k cb res) = None
           \<and> (\<forall>j \<in> set (later_listeners ?rest k). CallUnsubscribe j \<notin> set (fst (invoke k cb res)))"
  proof (intro ballI allI impI)
    fix k m cbk
    assume k: "k \<in> set served"
      and r: "clientId2GoogleSubNameAndClientCallback (engine ?s1) k = Some (m, cbk)"
    from k ni have ki: "k \<noteq> i" by auto
    from same k r have "clientId2GoogleSubNameAndClientCallback (engine s) k = Some (m, cbk)" by simp
    with Cons.prems(4) k ki
    show "snd (invoke k cbk res) = None
           \<and> (\<forall>j \<in> set (later_listeners ?rest k). CallUnsubscribe j \<notin> set (fst (invoke k cbk res)))"
      by (auto simp: later_listeners_Cons)
  qed
  from Cons.IH[OF c1 d p3 p4] obtain s' where
    keep': "\<forall>j \<in> set unserved. clientId2GoogleSubNameAndClientCallback (engine s') j
                   = clientId2GoogleSubNameAndClientCallback (engine ?s1) j"
    and eq: "(forEach_onMessage t invoke ?s1 res ?rest
                :: (error + unit) \<times> ('cb, 's) system \<times> ('m, 'v, 'cb) effect list)
              = (case forEach_onMessage t invoke s' res unserved of
                   (r, s'', effs) \<Rightarrow>
                     (r, s'',
                      map (\<lambda>i. OnMessage i (snd (the (clientId2GoogleSubNameAndClientCallback (engine ?s1) i))) res)
                        served @ effs))"
    by blast
  have maps: "map (\<lambda>i. OnMessage i (snd (the (clientId2GoogleSubNameAndClientCallback (engine ?s1) i))) res) served
            = (map (\<lambda>i. OnMessage i (snd (the (clientId2GoogleSubNameAndClientCallback (engine s) i))) res) served
                :: ('m, 'v, 'cb) effect list)"
    using same by (intro map_cong) auto
  have k2: "\<forall>j \<in> set unserved. clientId2GoogleSubNameAndClientCallback (engine s') j
                   = clientId2GoogleSubNameAndClientCallback (engine s) j"
    using keep' same by auto
  have "(forEach_onMessage t invoke s res ((i # served) @ unserved)
                  :: (error + unit) \<times> ('cb, 's) system \<times> ('m, 'v, 'cb) effect list)
              = (case forEach_onMessage t invoke s' res unserved of
                   (r, s'', effs) \<Rightarrow>
                     (r, s'',
                      map (\<lambda>i. OnMessage i (snd (the (clientId2GoogleSubNameAndClientCallback (engine s) i))) res)
                        (i # served) @ effs))"
    using rec inv eq maps by (simp split: prod.splits)
  with k2 show ?case by blast
qed

text \<open>
  Claim C3, as amended. Take a state reached from a new engine, a name with an entry, and a
  message whose transform completes with \<open>res\<close>. Split the entry's list of ids at that
  moment into a first part \<open>served\<close> and the rest, such that every callback of \<open>served\<close>
  returns normally on \<open>res\<close> and does not unsubscribe a listener that stands after it in
  the list. Then the handler acknowledges, calls the transform once, and calls the
  callbacks of \<open>served\<close>, each once with \<open>res\<close>, in the order of the list. When \<open>served\<close>
  is the whole list, these are all its effects and its promise is fulfilled. When the
  callback of the next listener throws, that call is the last effect, the promise is
  rejected with the error thrown, and no callback of a later listener is called. The list
  is not empty, repeats no id, and each of its ids has a record under the name.
\<close>

theorem handleMessage_fan_out:
  fixes message :: "'m"
  assumes entry: "googleSubName2GoogleSubAndClientIds (engine (run t new_system cs)) subName = Some en"
    and transformed: "commonMessageHandler message = Inr res"
    and split: "ids en = served @ unserved"
    and returns: "\<forall>i \<in> set served. \<forall>n cb.
        clientId2GoogleSubNameAndClientCallback (engine (run t new_system cs)) i = Some (n, cb) \<longrightarrow>
          snd (invoke i cb res) = None
          \<and> (\<forall>j \<in> set (later_listeners (ids en) i). CallUnsubscribe j \<notin> set (fst (invoke i cb res)))"
  shows "(unserved = [] \<longrightarrow>
            (\<exists>s'. handleMessage commonMessageHandler t invoke (run t new_system cs) subName message
               = (Inr (), s',
                  Ack message # CommonMessageHandler message
                  # map (\<lambda>i. OnMessage i
                           (snd (the (clientId2GoogleSubNameAndClientCallback (engine (run t new_system cs)) i)))
                           res) (ids en))))
         \<and> (\<forall>i rest err.
               unserved = i # rest
               \<and> snd (invoke i (snd (the (clientId2GoogleSubNameAndClientCallback
                                            (engine (run t new_system cs)) i))) res) = Some err \<longrightarrow>
               (\<exists>s'. handleMessage commonMessageHandler t invoke (run t new_system cs) subName message
                  = (Inl err, s',
                     Ack message # CommonMessageHandler message
                     # map (\<lambda>i. OnMessage i
                              (snd (the (clientId2GoogleSubNameAndClientCallback (engine (run t new_system cs)) i)))
                              res) (served @ [i]))))
         \<and> distinct (ids en) \<and> ids en \<noteq> []
         \<and> (\<forall>i \<in> set (ids en). \<exists>cb.
               clientId2GoogleSubNameAndClientCallback (engine (run t new_system cs)) i = Some (subName, cb))"
proof -
  let ?s = "run t new_system cs"
  let ?cb = "\<lambda>i. snd (the (clientId2GoogleSubNameAndClientCallback (engine ?s) i))"
  have c: "consistent (engine ?s)" by (rule consistent_reachable)
  have listed: "\<forall>i \<in> set (ids en). \<exists>cb. clientId2GoogleSubNameAndClientCallback (engine ?s) i = Some (subName, cb)"
    using consistent_listed[OF c entry] by blast
  from consistent_ids[OF c entry] have ne: "ids en \<noteq> []" and d: "distinct (ids en)" by simp_all
  have p2: "distinct (served @ unserved)" using d split by simp
  have p3: "\<forall>i \<in> set (served @ unserved). \<exists>n cb. clientId2GoogleSubNameAndClientCallback (engine ?s) i = Some (n, cb)"
    using listed split by fastforce
  have p4: "\<forall>i \<in> set served. \<forall>n cb. clientId2GoogleSubNameAndClientCallback (engine ?s) i = Some (n, cb) \<longrightarrow>
           snd (invoke i cb res) = None
           \<and> (\<forall>j \<in> set (later_listeners (served @ unserved) i). CallUnsubscribe j \<notin> set (fst (invoke i cb res)))"
    using returns split by simp
  from forEach_onMessage_served[where s = ?s and served = served and unserved = unserved
      and invoke = invoke and res = res and t = t and ?'m = 'm, OF c p2 p3 p4] obtain s' where
    keep: "\<forall>j \<in> set unserved. clientId2GoogleSubNameAndClientCallback (engine s') j
                   = clientId2GoogleSubNameAndClientCallback (engine ?s) j"
    and eq: "(forEach_onMessage t invoke ?s res (served @ unserved)
                  :: (error + unit) \<times> _ \<times> ('m, _, _) effect list)
              = (case forEach_onMessage t invoke s' res unserved of
                   (r, s'', effs) \<Rightarrow> (r, s'', map (\<lambda>i. OnMessage i (?cb i) res) served @ effs))"
    by blast
  have hm: "handleMessage commonMessageHandler t invoke ?s subName message
      = (case forEach_onMessage t invoke s' res unserved of
           (r, s'', effs) \<Rightarrow>
             (r, s'', Ack message # CommonMessageHandler message
                      # map (\<lambda>i. OnMessage i (?cb i) res) served @ effs))"
    using entry transformed split eq
    by (simp add: handleMessage_def handleMessage_resume_def split: prod.splits)
  have a: "unserved = [] \<longrightarrow>
            (\<exists>s'. handleMessage commonMessageHandler t invoke ?s subName message
               = (Inr (), s',
                  Ack message # CommonMessageHandler message
                  # map (\<lambda>i. OnMessage i (?cb i) res) (ids en)))"
    using hm split by auto
  have b: "\<forall>i rest err.
               unserved = i # rest \<and> snd (invoke i (?cb i) res) = Some err \<longrightarrow>
               (\<exists>s'. handleMessage commonMessageHandler t invoke ?s subName message
                  = (Inl err, s',
                     Ack message # CommonMessageHandler message
                     # map (\<lambda>i. OnMessage i (?cb i) res) (served @ [i])))"
  proof (intro allI impI)
    fix i rest err
    assume h: "unserved = i # rest \<and> snd (invoke i (?cb i) res) = Some err"
    then have iu: "i \<in> set unserved" by simp
    with keep have same: "clientId2GoogleSubNameAndClientCallback (engine s') i
                   = clientId2GoogleSubNameAndClientCallback (engine ?s) i" by simp
    from iu split listed obtain cb where
      rec: "clientId2GoogleSubNameAndClientCallback (engine ?s) i = Some (subName, cb)" by auto
    with h have thrown: "snd (invoke i cb res) = Some err" by simp
    then obtain calls where inv: "invoke i cb res = (calls, Some err)"
      by (cases "invoke i cb res") auto
    from h rec same inv
    have "(forEach_onMessage t invoke s' res unserved
             :: (error + unit) \<times> _ \<times> ('m, _, _) effect list)
          = (Inl err, run t s' (map engine_call_of calls), [OnMessage i cb res])"
      by simp
    with hm rec show "\<exists>s'. handleMessage commonMessageHandler t invoke ?s subName message
                  = (Inl err, s',
                     Ack message # CommonMessageHandler message
                     # map (\<lambda>i. OnMessage i (?cb i) res) (served @ [i]))"
      by simp
  qed
  from a b d ne listed show ?thesis by blast
qed

lemma two_listeners_entry:
  "googleSubName2GoogleSubAndClientIds (engine (run default_topic2SubName new_system two_listeners))
     ''Posts-subscription''
   = Some \<lparr>sub = Some 5, messageHandler = Some 0, errorHandler = Some 0, ids = [0, 1]\<rparr>"
  by (simp add: eval_defs two_listeners_def)

lemma two_listeners_records:
  "clientId2GoogleSubNameAndClientCallback
          (engine (run default_topic2SubName new_system two_listeners)) 0 = Some (''Posts-subscription'', 7)"
  "clientId2GoogleSubNameAndClientCallback
          (engine (run default_topic2SubName new_system two_listeners)) (Suc 0) = Some (''Posts-subscription'', 8)"
  by (simp_all add: eval_defs two_listeners_def)

theorem handleMessage_fan_out_witness:
  "(\<exists>s'. handleMessage identity_handler default_topic2SubName all_return
            (run default_topic2SubName new_system two_listeners) ''Posts-subscription'' 3
          = (Inr (), s', [Ack 3, CommonMessageHandler 3, OnMessage 0 7 3, OnMessage 1 8 3]))
   \<and> (\<exists>s'. handleMessage identity_handler default_topic2SubName seven_throws
            (run default_topic2SubName new_system two_listeners) ''Posts-subscription'' 3
          = (Inl (Thrown ''callback''), s', [Ack 3, CommonMessageHandler 3, OnMessage 0 7 3]))"
proof -
  let ?en = "\<lparr>sub = Some (5::nat), messageHandler = Some 0, errorHandler = Some 0, ids = [0, 1]\<rparr>"
  have b: "identity_handler 3 = Inr 3" by (simp add: identity_handler_def)
  have s1: "ids ?en = [0, 1] @ []" by simp
  have s2: "ids ?en = [] @ [0, 1]" by simp
  have r1: "\<forall>i \<in> set [0, 1]. \<forall>n cb.
        clientId2GoogleSubNameAndClientCallback
          (engine (run default_topic2SubName new_system two_listeners)) i = Some (n, cb) \<longrightarrow>
          snd (all_return i cb 3) = None
          \<and> (\<forall>j \<in> set (later_listeners (ids ?en) i). CallUnsubscribe j \<notin> set (fst (all_return i cb 3)))"
    by (simp add: all_return_def)
  have r2: "\<forall>i \<in> set []. \<forall>n cb.
        clientId2GoogleSubNameAndClientCallback
          (engine (run default_topic2SubName new_system two_listeners)) i = Some (n, cb) \<longrightarrow>
          snd (seven_throws i cb 3) = None
          \<and> (\<forall>j \<in> set (later_listeners (ids ?en) i). CallUnsubscribe j \<notin> set (fst (seven_throws i cb 3)))"
    by simp
  have thrown: "[0, 1] = 0 # [1::nat]
      \<and> snd (seven_throws 0 (snd (the (clientId2GoogleSubNameAndClientCallback
            (engine (run default_topic2SubName new_system two_listeners)) 0))) 3) = Some (Thrown ''callback'')"
    by (simp add: two_listeners_records seven_throws_def)
  note u1 = handleMessage_fan_out[where t = default_topic2SubName and cs = two_listeners
      and subName = "''Posts-subscription''" and en = ?en and commonMessageHandler = identity_handler
      and message = 3 and res = 3 and served = "[0, 1]" and unserved = "[]" and invoke = all_return]
  note u2 = handleMessage_fan_out[where t = default_topic2SubName and cs = two_listeners
      and subName = "''Posts-subscription''" and en = ?en and commonMessageHandler = identity_handler
      and message = 3 and res = 3 and served = "[]" and unserved = "[0, 1]" and invoke = seven_throws]
  note t1 = u1[OF two_listeners_entry b s1 r1, THEN conjunct1, THEN mp, OF refl]
  note t2 = u2[OF two_listeners_entry b s2 r2, THEN conjunct2, THEN conjunct1,
      THEN spec, THEN spec, THEN spec, THEN mp, OF thrown]
  from t1 t2 show ?thesis by (simp add: two_listeners_records)
qed

text \<open>
  Claim C3 as stated fails in two ways, with listeners 0 and 1 on \<open>Posts\<close>. When the
  callback of listener 0 throws, the loop ends there. When the callback of listener 0
  unsubscribes listener 1 and returns, the loop goes on with the array it started on, finds
  no record for listener 1 and raises a TypeError. In both cases the callback of listener 1
  is never called.
\<close>

theorem callback_ends_fan_out:
  "handleMessage identity_handler default_topic2SubName seven_throws
     (run default_topic2SubName new_system two_listeners) ''Posts-subscription'' 3
   = (Inl (Thrown ''callback''), run default_topic2SubName new_system two_listeners,
      [Ack 3, CommonMessageHandler 3, OnMessage 0 7 3])
   \<and> fst (handleMessage identity_handler default_topic2SubName seven_unsubscribes_next
          (run default_topic2SubName new_system two_listeners) ''Posts-subscription'' 3)
     = Inl TypeError
   \<and> snd (snd (handleMessage identity_handler default_topic2SubName seven_unsubscribes_next
          (run default_topic2SubName new_system two_listeners) ''Posts-subscription'' 3))
     = [Ack 3, CommonMessageHandler 3, OnMessage 0 7 3]"
  by (simp add: eval_defs two_listeners_def handleMessage_def handleMessage_resume_def
      identity_handler_def seven_throws_def seven_unsubscribes_next_def)

section \<open>Properties of the bridge\<close>

lemmas bridge_defs = iterator_call_def next_then_def return_then_def throw_then_def emptyQueue_def
  pushValue_def pullValue_def posts_bridge_def new_AsyncIterator_def

subsection \<open>The two queues\<close>

lemma pushValue_exclusive:
  "queues_exclusive b \<Longrightarrow> pushValue b event = (b', out) \<Longrightarrow> queues_exclusive b'"
  by (auto simp: pushValue_def queues_exclusive_def split: list.splits)

lemma pullValue_exclusive:
  "queues_exclusive b \<Longrightarrow> pullValue b p = (b', out) \<Longrightarrow> queues_exclusive b'"
  by (auto simp: pullValue_def queues_exclusive_def split: list.splits)

lemma emptyQueue_exclusive:
  "queues_exclusive b \<Longrightarrow> emptyQueue e b subs = (r, e', b', out) \<Longrightarrow> queues_exclusive b'"
  by (auto simp: emptyQueue_def queues_exclusive_def split: if_splits prod.splits option.splits)

lemma return_then_exclusive:
  "queues_exclusive b \<Longrightarrow> return_then e b subs p = (e', b', out) \<Longrightarrow> queues_exclusive b'"
  by (auto simp: return_then_def split: prod.splits option.splits dest: emptyQueue_exclusive)

lemma throw_then_exclusive:
  "queues_exclusive b \<Longrightarrow> throw_then e b subs p err = (e', b', out) \<Longrightarrow> queues_exclusive b'"
  by (auto simp: throw_then_def split: prod.splits option.splits dest: emptyQueue_exclusive)

lemma next_then_exclusive:
  "queues_exclusive b \<Longrightarrow> next_then e b subs p = (e', b', out) \<Longrightarrow> queues_exclusive b'"
  by (auto simp: next_then_def split: if_splits prod.splits
           dest: pullValue_exclusive return_then_exclusive)

lemma iterator_then_exclusive:
  "queues_exclusive b \<Longrightarrow> iterator_then e b subs c = (e', b', out) \<Longrightarrow> queues_exclusive b'"
  by (cases c)
     (auto split: prod.splits
           dest: next_then_exclusive return_then_exclusive throw_then_exclusive pushValue_exclusive)

lemma iterator_call_exclusive:
  "queues_exclusive b \<Longrightarrow> iterator_call e b c = (e', b', out) \<Longrightarrow> queues_exclusive b'"
  by (auto simp: iterator_call_def queues_exclusive_def[of "b\<lparr>waiting := w\<rparr>" for w]
           split: option.splits sum.splits dest: iterator_then_exclusive)
     (simp add: queues_exclusive_def)

lemma iterator_calls_exclusive:
  "queues_exclusive b \<Longrightarrow> iterator_calls e b cs = (e', b', out) \<Longrightarrow> queues_exclusive b'"
proof (induction cs arbitrary: e b e' b' out)
  case Nil
  then show ?case by simp
next
  case (Cons c cs)
  obtain e1 b1 out1 where c1: "iterator_call e b c = (e1, b1, out1)"
    by (cases "iterator_call e b c") auto
  obtain e2 b2 out2 where c2: "iterator_calls e1 b1 cs = (e2, b2, out2)"
    by (cases "iterator_calls e1 b1 cs") auto
  from Cons.prems(2) c1 c2 have "b' = b2" by simp
  with Cons.IH[OF iterator_call_exclusive[OF Cons.prems(1) c1] c2] show ?case by simp
qed

lemma settle_allSubscribed_exclusive:
  "queues_exclusive b \<Longrightarrow> settle_allSubscribed e b outcome = (e', b', out) \<Longrightarrow> queues_exclusive b'"
proof -
  assume q: "queues_exclusive b"
    and s: "settle_allSubscribed e b outcome = (e', b', out)"
  from q have "queues_exclusive (b\<lparr>allSubscribed := Some outcome, waiting := []\<rparr>)"
    by (simp add: queues_exclusive_def)
  moreover from s have "iterator_calls e (b\<lparr>allSubscribed := Some outcome, waiting := []\<rparr>) (waiting b)
      = (e', b', out)"
    by (simp add: settle_allSubscribed_def)
  ultimately show ?thesis by (rule iterator_calls_exclusive)
qed

text \<open>
  Claim C4. The two queues of a new bridge are empty, and every method call
  (\<open>next\<close>, \<open>pushValue\<close>, \<open>return\<close>, \<open>throw\<close>), every sequence of calls and the
  settling of the registration, against any engine, keep at most one of \<open>pullQueue\<close> and
  \<open>pushQueue\<close> non-empty. \<open>pushValue\<close> resolves the oldest pending pull with the value
  and removes it from \<open>pullQueue\<close> when there is one, and buffers nothing; only when there
  is none does it append the value to \<open>pushQueue\<close>. \<open>pullValue\<close>, and so \<open>next\<close> on a
  listening bridge, resolves with the oldest buffered value and removes it from
  \<open>pushQueue\<close> when there is one, and queues nothing; only when there is none does it
  append the pull to \<open>pullQueue\<close>.
\<close>

theorem queues_never_both_occupied:
  "queues_exclusive (new_AsyncIterator subNames)
   \<and> (queues_exclusive b \<longrightarrow> queues_exclusive (fst (snd (iterator_call e b c))))
   \<and> (queues_exclusive b \<longrightarrow> queues_exclusive (fst (snd (iterator_calls e b cs))))
   \<and> (queues_exclusive b \<longrightarrow> queues_exclusive (fst (snd (settle_allSubscribed e b outcome))))
   \<and> (\<forall>resolve pulls. pullQueue b = resolve # pulls \<longrightarrow>
         pushValue b event
           = (b\<lparr>pullQueue := pulls\<rparr>, [Resolved resolve (IteratorResult (Some event) False)])
         \<and> (\<forall>subs. allSubscribed b = Some (Inr subs) \<longrightarrow>
               iterator_call e b (PushValue event)
                 = (e, b\<lparr>pullQueue := pulls\<rparr>, [Resolved resolve (IteratorResult (Some event) False)])))
   \<and> (pullQueue b = [] \<longrightarrow>
         pushValue b event = (b\<lparr>pushQueue := pushQueue b @ [event]\<rparr>, [])
         \<and> (\<forall>subs. allSubscribed b = Some (Inr subs) \<longrightarrow>
               iterator_call e b (PushValue event) = (e, b\<lparr>pushQueue := pushQueue b @ [event]\<rparr>, [])))
   \<and> (\<forall>res pushes. pushQueue b = res # pushes \<longrightarrow>
         pullValue b p = (b\<lparr>pushQueue := pushes\<rparr>, [Resolved p (IteratorResult (Some res) False)])
         \<and> (\<forall>subs. allSubscribed b = Some (Inr subs) \<and> listening b \<longrightarrow>
               iterator_call e b (Next p)
                 = (e, b\<lparr>pushQueue := pushes\<rparr>, [Resolved p (IteratorResult (Some res) False)])))
   \<and> (pushQueue b = [] \<longrightarrow>
         pullValue b p = (b\<lparr>pullQueue := pullQueue b @ [p]\<rparr>, [])
         \<and> (\<forall>subs. allSubscribed b = Some (Inr subs) \<and> listening b \<longrightarrow>
               iterator_call e b (Next p) = (e, b\<lparr>pullQueue := pullQueue b @ [p]\<rparr>, [])))"
proof (intro conjI impI allI)
  show "queues_exclusive (new_AsyncIterator subNames)"
    by (simp add: queues_exclusive_def new_AsyncIterator_def)
next
  assume "queues_exclusive b"
  then show "queues_exclusive (fst (snd (iterator_call e b c)))"
    by (cases "iterator_call e b c") (auto dest: iterator_call_exclusive)
next
  assume "queues_exclusive b"
  then show "queues_exclusive (fst (snd (iterator_calls e b cs)))"
    by (cases "iterator_calls e b cs") (auto dest: iterator_calls_exclusive)
next
  assume "queues_exclusive b"
  then show "queues_exclusive (fst (snd (settle_allSubscribed e b outcome)))"
    by (cases "settle_allSubscribed e b outcome") (auto dest: settle_allSubscribed_exclusive)
next
  fix resolve pulls assume "pullQueue b = resolve # pulls"
  then show "pushValue b event
           = (b\<lparr>pullQueue := pulls\<rparr>, [Resolved resolve (IteratorResult (Some event) False)])"
    by (simp add: pushValue_def)
next
  fix resolve pulls subs
  assume "pullQueue b = resolve # pulls" "allSubscribed b = Some (Inr subs)"
  then show "iterator_call e b (PushValue event)
                 = (e, b\<lparr>pullQueue := pulls\<rparr>, [Resolved resolve (IteratorResult (Some event) False)])"
    by (simp add: iterator_call_def pushValue_def)
next
  assume "pullQueue b = []"
  then show "pushValue b event = (b\<lparr>pushQueue := pushQueue b @ [event]\<rparr>, [])"
    by (simp add: pushValue_def)
next
  fix subs assume "pullQueue b = []" "allSubscribed b = Some (Inr subs)"
  then show "iterator_call e b (PushValue event) = (e, b\<lparr>pushQueue := pushQueue b @ [event]\<rparr>, [])"
    by (simp add: iterator_call_def pushValue_def)
next
  fix res pushes assume "pushQueue b = res # pushes"
  then show "pullValue b p = (b\<lparr>pushQueue := pushes\<rparr>, [Resolved p (IteratorResult (Some res) False)])"
    by (simp add: pullValue_def)
next
  fix res pushes subs
  assume "pushQueue b = res # pushes" "allSubscribed b = Some (Inr subs) \<and> listening b"
  then show "iterator_call e b (Next p)
                 = (e, b\<lparr>pushQueue := pushes\<rparr>, [Resolved p (IteratorResult (Some res) False)])"
    by (simp add: iterator_call_def next_then_def pullValue_def)
next
  assume "pushQueue b = []"
  then show "pullValue b p = (b\<lparr>pullQueue := pullQueue b @ [p]\<rparr>, [])"
    by (simp add: pullValue_def)
next
  fix subs assume "pushQueue b = []" "allSubscribed b = Some (Inr subs) \<and> listening b"
  then show "iterator_call e b (Next p) = (e, b\<lparr>pullQueue := pullQueue b @ [p]\<rparr>, [])"
    by (simp add: iterator_call_def next_then_def pullValue_def)
qed

theorem queues_never_both_occupied_witness:
  "queues_exclusive (fst (snd (iterator_call posts_engine pulling_bridge (PushValue 9))))
   \<and> iterator_call posts_engine pulling_bridge (PushValue 9)
       = (posts_engine, pulling_bridge\<lparr>pullQueue := []\<rparr>, [Resolved 4 (IteratorResult (Some 9) False)])
   \<and> iterator_call posts_engine buffering_bridge (Next 1)
       = (posts_engine, buffering_bridge\<lparr>pushQueue := []\<rparr>, [Resolved 1 (IteratorResult (Some 9) False)])
   \<and> iterator_call posts_engine posts_bridge (PushValue 9)
       = (posts_engine, posts_bridge\<lparr>pushQueue := pushQueue posts_bridge @ [9]\<rparr>, [])
   \<and> iterator_call posts_engine posts_bridge (Next 1)
       = (posts_engine, posts_bridge\<lparr>pullQueue := pullQueue posts_bridge @ [1]\<rparr>, [])"
proof -
  have a: "queues_exclusive pulling_bridge"
    by (simp add: queues_exclusive_def pulling_bridge_def posts_bridge_def new_AsyncIterator_def)
  have b: "pullQueue pulling_bridge = 4 # []" by (simp add: pulling_bridge_def)
  have c: "pushQueue buffering_bridge = 9 # []" by (simp add: buffering_bridge_def)
  have f1: "allSubscribed pulling_bridge = Some (Inr [0])"
    by (simp add: pulling_bridge_def posts_bridge_def)
  have f2: "allSubscribed buffering_bridge = Some (Inr [0]) \<and> listening buffering_bridge"
    by (simp add: buffering_bridge_def posts_bridge_def new_AsyncIterator_def)
  have f3: "allSubscribed posts_bridge = Some (Inr [0])" by (simp add: posts_bridge_def)
  have f4: "allSubscribed posts_bridge = Some (Inr [0]) \<and> listening posts_bridge"
    by (simp add: posts_bridge_def new_AsyncIterator_def)
  have d: "pullQueue posts_bridge = []" by (simp add: posts_bridge_def new_AsyncIterator_def)
  have g: "pushQueue posts_bridge = []" by (simp add: posts_bridge_def new_AsyncIterator_def)
  note t1 = queues_never_both_occupied[where b = pulling_bridge
      and e = posts_engine and c = "PushValue 9" and event = 9]
  note t2 = queues_never_both_occupied[where b = buffering_bridge and e = posts_engine and p = 1]
  note t3 = queues_never_both_occupied[where b = posts_bridge and e = posts_engine and p = 1 and event = 9]
  note c1 = t1[THEN conjunct2, THEN conjunct1, THEN mp, OF a]
  note c2 = t1[THEN conjunct2, THEN conjunct2, THEN conjunct2, THEN conjunct2, THEN conjunct1,
      THEN spec, THEN spec, THEN mp, OF b, THEN conjunct2, THEN spec, THEN mp, OF f1]
  note c3 = t2[THEN conjunct2, THEN conjunct2, THEN conjunct2, THEN conjunct2, THEN conjunct2,
      THEN conjunct2, THEN conjunct1,
      THEN spec, THEN spec, THEN mp, OF c, THEN conjunct2, THEN spec, THEN mp, OF f2]
  note c4 = t3[THEN conjunct2, THEN conjunct2, THEN conjunct2, THEN conjunct2, THEN conjunct2,
      THEN conjunct1, THEN mp, OF d, THEN conjunct2, THEN spec, THEN mp, OF f3]
  note c5 = t3[THEN conjunct2, THEN conjunct2, THEN conjunct2, THEN conjunct2, THEN conjunct2,
      THEN conjunct2, THEN conjunct2, THEN mp, OF g, THEN conjunct2, THEN spec, THEN mp, OF f4]
  from c1 c2 c3 c4 c5 show ?thesis by (intro conjI)
qed

subsection \<open>A closed bridge\<close>

lemma posts_engine_eval:
  "posts_engine =
     \<lparr>clientId2GoogleSubNameAndClientCallback = [0 \<mapsto> (''Posts-subscription'', 7)],
      googleSubName2GoogleSubAndClientIds =
        [''Posts-subscription'' \<mapsto>
           \<lparr>sub = Some 5, messageHandler = Some 0, errorHandler = Some 0, ids = [0]\<rparr>],
      currentClientId = 1\<rparr>"
  by (simp add: posts_engine_def eval_defs)

lemma closed_call:
  assumes "allSubscribed b = Some (Inr subs)" and "\<not> listening b" and "pullQueue b = []"
  shows "iterator_call e b c = (e, b\<lparr>pushQueue := pushQueue b @ pushed_values [c]\<rparr>, closed_answer c)"
  using assms by (cases c) (simp_all add: bridge_defs)

lemma pushed_values_Cons: "pushed_values (c # cs) = pushed_values [c] @ pushed_values cs"
  by (cases c) simp_all

lemma closed_calls:
  assumes "allSubscribed b = Some (Inr subs)" and "\<not> listening b" and "pullQueue b = []"
  shows "iterator_calls e b cs
           = (e, b\<lparr>pushQueue := pushQueue b @ pushed_values cs\<rparr>, concat (map closed_answer cs))"
  using assms
proof (induction cs arbitrary: b)
  case Nil
  then show ?case by simp
next
  case (Cons c cs)
  let ?b1 = "b\<lparr>pushQueue := pushQueue b @ pushed_values [c]\<rparr>"
  have c1: "iterator_call e b c = (e, ?b1, closed_answer c)"
    using Cons.prems by (rule closed_call)
  have "iterator_calls e ?b1 cs
           = (e, ?b1\<lparr>pushQueue := pushQueue ?b1 @ pushed_values cs\<rparr>, concat (map closed_answer cs))"
    using Cons.prems by (intro Cons.IH) simp_all
  with c1 show ?case by (simp add: pushed_values_Cons[of c cs])
qed

lemma closed_answers_yield_nothing:
  "\<not> list_ex yields_value (concat (map closed_answer cs))
   \<and> \<not> list_ex is_BrokerCall (concat (map closed_answer cs))"
proof (induction cs)
  case Nil
  then show ?case by simp
next
  case (Cons c cs)
  then show ?case by (cases c) simp_all
qed

lemma teardown_closes:
  assumes "allSubscribed b = Some (Inr subs)" and "listening b"
    and "fst (unsubscribeAll e subs) = None"
    and "c = Return p \<or> c = Throw p err"
  shows "fst (snd (iterator_call e b c)) = b\<lparr>listening := False, pullQueue := [], pushQueue := []\<rparr>"
  using assms by (auto simp: bridge_defs split: prod.splits option.splits)

text \<open>
  Claim C6, as amended. Let \<open>return\<close> or \<open>throw\<close> run on a listening bridge whose
  registration is fulfilled, with a teardown in which every \<open>unsubscribe\<close> succeeds. The
  bridge is then closed with both queues empty, and for all later calls, against any
  engine: the engine is not touched, a \<open>next\<close> or \<open>return\<close> is answered with
  \<open>{value: undefined, done: true}\<close>, no answer ever carries a value, \<open>pullQueue\<close> stays
  empty and \<open>listening\<close> stays false. A value pushed after the close is not dropped: it is
  appended to \<open>pushQueue\<close>, where it stays.
\<close>

theorem closed_bridge_buffers_and_never_yields:
  assumes "allSubscribed b = Some (Inr subs)" and "listening b"
    and "fst (unsubscribeAll e subs) = None"
    and "c = Return p \<or> c = Throw p err"
  shows "fst (snd (iterator_call e b c)) = b\<lparr>listening := False, pullQueue := [], pushQueue := []\<rparr>
         \<and> iterator_calls e' (fst (snd (iterator_call e b c))) cs
             = (e', b\<lparr>listening := False, pullQueue := [], pushQueue := pushed_values cs\<rparr>,
                concat (map closed_answer cs))
         \<and> \<not> list_ex yields_value (snd (snd (iterator_calls e' (fst (snd (iterator_call e b c))) cs)))
         \<and> iterator_call e' (b\<lparr>listening := False, pullQueue := [], pushQueue := pushes\<rparr>) (Next q)
             = (e', b\<lparr>listening := False, pullQueue := [], pushQueue := pushes\<rparr>,
                [Resolved q (IteratorResult None True)])
         \<and> iterator_call e' (b\<lparr>listening := False, pullQueue := [], pushQueue := pushes\<rparr>) (PushValue event)
             = (e', b\<lparr>listening := False, pullQueue := [], pushQueue := pushes @ [event]\<rparr>, [])"
proof -
  let ?b1 = "b\<lparr>listening := False, pullQueue := [], pushQueue := []\<rparr>"
  have t: "fst (snd (iterator_call e b c)) = ?b1" using assms by (rule teardown_closes)
  have cs: "iterator_calls e' ?b1 cs
      = (e', ?b1\<lparr>pushQueue := pushQueue ?b1 @ pushed_values cs\<rparr>, concat (map closed_answer cs))"
    using assms(1) by (intro closed_calls) simp_all
  let ?b2 = "b\<lparr>listening := False, pullQueue := [], pushQueue := pushes\<rparr>"
  have n: "iterator_call e' ?b2 (Next q)
      = (e', ?b2\<lparr>pushQueue := pushQueue ?b2 @ pushed_values [Next q]\<rparr>, closed_answer (Next q))"
    using assms(1) by (intro closed_call) simp_all
  have pv: "iterator_call e' ?b2 (PushValue event)
      = (e', ?b2\<lparr>pushQueue := pushQueue ?b2 @ pushed_values [PushValue event]\<rparr>, closed_answer (PushValue event))"
    using assms(1) by (intro closed_call) simp_all
  from t cs n pv show ?thesis by (simp add: closed_answers_yield_nothing)
qed

lemma posts_teardown: "fst (unsubscribeAll posts_engine [0]) = None"
  by (simp add: posts_engine_eval unsubscribe_def)

theorem closed_bridge_buffers_and_never_yields_witness:
  "iterator_calls posts_engine (fst (snd (iterator_call posts_engine posts_bridge (Return 1))))
     [PushValue 9, Next 2, PushValue 10, Next 3]
   = (posts_engine, posts_bridge\<lparr>listening := False, pullQueue := [], pushQueue := [9, 10]\<rparr>,
      [Resolved 2 (IteratorResult None True), Resolved 3 (IteratorResult None True)])"
proof -
  have a: "allSubscribed posts_bridge = Some (Inr [0])" by (simp add: posts_bridge_def)
  have b: "listening posts_bridge" by (simp add: posts_bridge_def new_AsyncIterator_def)
  have c: "Return 1 = Return 1 \<or> (Return 1 :: nat iterator_call) = Throw 1 TypeError" by simp
  from closed_bridge_buffers_and_never_yields[OF a b posts_teardown c,
      of posts_engine "[PushValue 9, Next 2, PushValue 10, Next 3]"]
  show ?thesis by simp
qed

text \<open>
  Claim C6 as stated fails: \<open>pushValue\<close> does not test \<open>listening\<close>, so a push after
  \<open>return\<close> changes \<open>pushQueue\<close> from empty to holding the pushed value.
\<close>

theorem push_after_close_is_buffered:
  "pushQueue (fst (snd (iterator_calls posts_engine posts_bridge [Return 1]))) = []
   \<and> pushQueue (fst (snd (iterator_calls posts_engine posts_bridge [Return 1, PushValue 9]))) = [9]"
  by (simp add: bridge_defs posts_engine_eval unsubscribe_def)

subsection \<open>The first and the second \<open>return\<close>\<close>

lemma unsubscribe_registered:
  assumes c: "consistent e"
    and rec: "clientId2GoogleSubNameAndClientCallback e i = Some (n, cb)" and n: "n \<noteq> []"
  shows "\<exists>e' cs. unsubscribe e i = (Inr (), e', cs)
           \<and> clientId2GoogleSubNameAndClientCallback e'
               = (clientId2GoogleSubNameAndClientCallback e)(i := None)"
proof -
  from consistent_recorded[OF c rec] obtain en where
    "googleSubName2GoogleSubAndClientIds e n = Some en" by blast
  with rec n show ?thesis by (simp add: unsubscribe_def)
qed

lemma unsubscribeAll_registered:
  assumes "consistent e" and "distinct subs"
    and "\<forall>i \<in> set subs. \<exists>n cb. clientId2GoogleSubNameAndClientCallback e i = Some (n, cb) \<and> n \<noteq> []"
  shows "\<exists>e' cs. unsubscribeAll e subs = (None, e', cs)
           \<and> (\<forall>i \<in> set subs. clientId2GoogleSubNameAndClientCallback e' i = None)
           \<and> (\<forall>j. j \<notin> set subs \<longrightarrow>
                 clientId2GoogleSubNameAndClientCallback e' j = clientId2GoogleSubNameAndClientCallback e j)"
  using assms
proof (induction subs arbitrary: e)
  case Nil
  then show ?case by simp
next
  case (Cons i subs)
  from Cons.prems(3) obtain n cb where
    rec: "clientId2GoogleSubNameAndClientCallback e i = Some (n, cb)" and n: "n \<noteq> []" by auto
  from unsubscribe_registered[OF Cons.prems(1) rec n] obtain e1 cs1 where
    u: "unsubscribe e i = (Inr (), e1, cs1)"
    and r1: "clientId2GoogleSubNameAndClientCallback e1 = (clientId2GoogleSubNameAndClientCallback e)(i := None)"
    by blast
  have c1: "consistent e1" using Cons.prems(1) u by (rule consistent_unsubscribe)
  from Cons.prems(2) have d: "distinct subs" and ni: "i \<notin> set subs" by auto
  have "\<forall>j \<in> set subs. \<exists>n cb. clientId2GoogleSubNameAndClientCallback e1 j = Some (n, cb) \<and> n \<noteq> []"
    using Cons.prems(3) ni r1 by auto
  from Cons.IH[OF c1 d this] obtain e2 cs2 where
    ua: "unsubscribeAll e1 subs = (None, e2, cs2)"
    and gone: "\<forall>j \<in> set subs. clientId2GoogleSubNameAndClientCallback e2 j = None"
    and same: "\<forall>j. j \<notin> set subs \<longrightarrow>
                 clientId2GoogleSubNameAndClientCallback e2 j = clientId2GoogleSubNameAndClientCallback e1 j"
    by blast
  from u ua have "unsubscribeAll e (i # subs) = (None, e2, cs1 @ cs2)" by simp
  moreover from gone same ni r1
  have "\<forall>j \<in> set (i # subs). clientId2GoogleSubNameAndClientCallback e2 j = None" by auto
  moreover from same r1
  have "\<forall>j. j \<notin> set (i # subs) \<longrightarrow>
          clientId2GoogleSubNameAndClientCallback e2 j = clientId2GoogleSubNameAndClientCallback e j"
    by auto
  ultimately show ?case by blast
qed

lemma unsubscribeAll_keeps_unknown:
  "clientId2GoogleSubNameAndClientCallback e j = None \<Longrightarrow> unsubscribeAll e subs = (r, e', cs) \<Longrightarrow>
   clientId2GoogleSubNameAndClientCallback e' j = None"
proof (induction subs arbitrary: e r e' cs)
  case Nil
  then show ?case by simp
next
  case (Cons i subs)
  obtain r1 e1 cs1 where u: "unsubscribe e i = (r1, e1, cs1)"
    by (cases "unsubscribe e i") auto
  from unsubscribe_records[OF u] Cons.prems(1)
  have k: "clientId2GoogleSubNameAndClientCallback e1 j = None" by auto
  show ?case
  proof (cases r1)
    case (Inl err)
    with u Cons.prems(2) k show ?thesis by simp
  next
    case (Inr v)
    obtain r2 e2 cs2 where ua: "unsubscribeAll e1 subs = (r2, e2, cs2)"
      by (cases "unsubscribeAll e1 subs") auto
    from Cons.IH[OF k ua] u Inr ua Cons.prems(2) show ?thesis by simp
  qed
qed

lemma unsubscribeAll_deregisters:
  "unsubscribeAll e subs = (None, e', cs) \<Longrightarrow>
   \<forall>i \<in> set subs. clientId2GoogleSubNameAndClientCallback e' i = None"
proof (induction subs arbitrary: e e' cs)
  case Nil
  then show ?case by simp
next
  case (Cons i subs)
  obtain r1 e1 cs1 where u: "unsubscribe e i = (r1, e1, cs1)"
    by (cases "unsubscribe e i") auto
  show ?case
  proof (cases r1)
    case (Inl err)
    with u Cons.prems show ?thesis by simp
  next
    case (Inr v)
    obtain r2 e2 cs2 where ua: "unsubscribeAll e1 subs = (r2, e2, cs2)"
      by (cases "unsubscribeAll e1 subs") auto
    with u Inr Cons.prems have r2: "r2 = None" and e2: "e2 = e'" by simp_all
    from u Inr have gone: "clientId2GoogleSubNameAndClientCallback e1 i = None"
      by (auto dest: unsubscribe_removes_record)
    from unsubscribeAll_keeps_unknown[OF gone ua] e2
    have "clientId2GoogleSubNameAndClientCallback e' i = None" by simp
    moreover from Cons.IH[OF ua[unfolded r2]] e2
    have "\<forall>k \<in> set subs. clientId2GoogleSubNameAndClientCallback e' k = None" by simp
    ultimately show ?thesis by simp
  qed
qed

lemma return_rejected_when_unsubscribe_throws:
  assumes "allSubscribed b = Some (Inr subs)" and "listening b"
    and "unsubscribeAll e subs = (Some err, e', cs)"
  shows "iterator_call e b (Return p) = (e', b\<lparr>listening := False\<rparr>, map BrokerCall cs @ [Rejected p err])"
  using assms by (simp add: bridge_defs)

text \<open>
  Claim C7, as amended. Take a listening bridge whose registration is fulfilled with the
  ids \<open>subs\<close>. When every \<open>unsubscribe\<close> of the teardown succeeds, the first \<open>return\<close>
  unsubscribes the ids of \<open>subs\<close> in order, after which none of them has a record; it
  sets \<open>listening\<close> to false, resolves each pending pull with
  \<open>{value: undefined, done: true}\<close> in order, empties both queues and resolves its own
  promise with the same result. A \<open>return\<close> on a bridge that is already closed, whatever
  its queues and against any engine, changes neither the engine nor the bridge, makes no
  call on a broker handle and resolves with \<open>{value: undefined, done: true}\<close>. Every
  \<open>unsubscribe\<close> of the teardown succeeds when the ids of \<open>subs\<close> are distinct and each
  is registered, under a name that is not the empty string, in an engine reached from a new
  one.
\<close>

theorem return_is_idempotent:
  assumes fulfilled: "allSubscribed b = Some (Inr subs)" and "open": "listening b"
  shows "(unsubscribeAll e subs = (None, e', cs) \<longrightarrow>
            iterator_call e b (Return p)
              = (e', b\<lparr>listening := False, pullQueue := [], pushQueue := []\<rparr>,
                 map BrokerCall cs
                 @ map (\<lambda>resolve. Resolved resolve (IteratorResult None True)) (pullQueue b)
                 @ [Resolved p (IteratorResult None True)])
            \<and> (\<forall>i \<in> set subs. clientId2GoogleSubNameAndClientCallback e' i = None))
         \<and> (\<forall>pulls pushes.
               iterator_call e'' (b\<lparr>listening := False, pullQueue := pulls, pushQueue := pushes\<rparr>) (Return q)
                 = (e'', b\<lparr>listening := False, pullQueue := pulls, pushQueue := pushes\<rparr>,
                    [Resolved q (IteratorResult None True)]))
         \<and> (distinct subs
             \<and> (\<forall>i \<in> set subs. \<exists>n cb.
                   clientId2GoogleSubNameAndClientCallback (engine (run t new_system cs0)) i = Some (n, cb)
                   \<and> n \<noteq> []) \<longrightarrow>
             fst (unsubscribeAll (engine (run t new_system cs0)) subs) = None)"
proof (intro conjI impI allI)
  assume ua: "unsubscribeAll e subs = (None, e', cs)"
  show "iterator_call e b (Return p)
              = (e', b\<lparr>listening := False, pullQueue := [], pushQueue := []\<rparr>,
                 map BrokerCall cs
                 @ map (\<lambda>resolve. Resolved resolve (IteratorResult None True)) (pullQueue b)
                 @ [Resolved p (IteratorResult None True)])"
    using fulfilled "open" ua by (simp add: bridge_defs)
  show "\<forall>i \<in> set subs. clientId2GoogleSubNameAndClientCallback e' i = None"
    using ua by (rule unsubscribeAll_deregisters)
next
  fix pulls pushes
  show "iterator_call e'' (b\<lparr>listening := False, pullQueue := pulls, pushQueue := pushes\<rparr>) (Return q)
                 = (e'', b\<lparr>listening := False, pullQueue := pulls, pushQueue := pushes\<rparr>,
                    [Resolved q (IteratorResult None True)])"
    using fulfilled by (simp add: bridge_defs)
next
  assume h: "distinct subs
             \<and> (\<forall>i \<in> set subs. \<exists>n cb.
                   clientId2GoogleSubNameAndClientCallback (engine (run t new_system cs0)) i = Some (n, cb)
                   \<and> n \<noteq> [])"
  have "consistent (engine (run t new_system cs0))" by (rule consistent_reachable)
  from unsubscribeAll_registered[OF this] h
  show "fst (unsubscribeAll (engine (run t new_system cs0)) subs) = None" by fastforce
qed

lemma posts_unsubscribeAll:
  "unsubscribeAll posts_engine [0]
     = (None, constructor\<lparr>currentClientId := 1\<rparr>,
        [RemoveListener ''Posts-subscription'' 5 MessageEvent (Some 0),
         RemoveListener ''Posts-subscription'' 5 ErrorEvent (Some 0)])"
  by (simp add: posts_engine_eval unsubscribe_def constructor_def)

theorem return_is_idempotent_witness:
  "iterator_call posts_engine pulling_bridge (Return 1)
     = (constructor\<lparr>currentClientId := 1\<rparr>,
        pulling_bridge\<lparr>listening := False, pullQueue := [], pushQueue := []\<rparr>,
        [BrokerCall (RemoveListener ''Posts-subscription'' 5 MessageEvent (Some 0)),
         BrokerCall (RemoveListener ''Posts-subscription'' 5 ErrorEvent (Some 0)),
         Resolved 4 (IteratorResult None True), Resolved 1 (IteratorResult None True)])
   \<and> fst (unsubscribeAll posts_engine [0]) = None"
proof -
  have a: "allSubscribed pulling_bridge = Some (Inr [0])"
    by (simp add: pulling_bridge_def posts_bridge_def)
  have b: "listening pulling_bridge"
    by (simp add: pulling_bridge_def posts_bridge_def new_AsyncIterator_def)
  have d: "distinct [0::nat] \<and> (\<forall>i \<in> set [0]. \<exists>n cb.
         clientId2GoogleSubNameAndClientCallback
           (engine (run (default_topic2SubName :: string \<Rightarrow> unit option \<Rightarrow> string) (new_system :: (nat, nat) system)
               [Subscribe ''Posts'' 7 None, GetSubscriptionSettled 0 (Inr 5)])) i = Some (n, cb) \<and> n \<noteq> [])"
    by (simp add: eval_defs)
  note t = return_is_idempotent[OF a b, where e = posts_engine and p = 1]
  from t[THEN conjunct1, THEN mp, OF posts_unsubscribeAll, THEN conjunct1]
  have c1: "iterator_call posts_engine pulling_bridge (Return 1)
     = (constructor\<lparr>currentClientId := 1\<rparr>,
        pulling_bridge\<lparr>listening := False, pullQueue := [], pushQueue := []\<rparr>,
        [BrokerCall (RemoveListener ''Posts-subscription'' 5 MessageEvent (Some 0)),
         BrokerCall (RemoveListener ''Posts-subscription'' 5 ErrorEvent (Some 0)),
         Resolved 4 (IteratorResult None True), Resolved 1 (IteratorResult None True)])"
    by (simp add: pulling_bridge_def)
  from t[THEN conjunct2, THEN conjunct2, THEN mp, OF d]
  have c2: "fst (unsubscribeAll posts_engine [0]) = None" unfolding posts_engine_def .
  from c1 c2 show ?thesis by (intro conjI)
qed

text \<open>
  Claim C7 as stated fails when a held id is no longer registered: after somebody else has
  unsubscribed listener 0, the first \<open>return\<close> of the bridge that holds it is rejected
  with \<open>NoSubscriptionOfIdError\<close>, the pending pull 4 is not resolved and stays in
  \<open>pullQueue\<close>.
\<close>

theorem return_rejected_after_foreign_unsubscribe:
  "iterator_call deserted_engine pulling_bridge (Return 1)
     = (deserted_engine, pulling_bridge\<lparr>listening := False\<rparr>, [Rejected 1 (NoSubscriptionOfIdError 0)])
   \<and> pullQueue (fst (snd (iterator_call deserted_engine pulling_bridge (Return 1)))) = [4]"
  by (simp add: bridge_defs pulling_bridge_def deserted_engine_def eval_defs)

subsection \<open>A rejected registration\<close>

lemma first_rejection_exists:
  "(p, Inl err) \<in> set xs \<Longrightarrow> \<exists>err'. first_rejection xs = Some err'"
  by (induction xs rule: first_rejection.induct) auto

lemma first_rejection_member:
  "first_rejection xs = Some err \<Longrightarrow> \<exists>p. (p, Inl err) \<in> set xs"
  by (induction xs rule: first_rejection.induct) auto

lemma Promise_all_rejects:
  assumes "p \<in> set promises" and "(p, Inl err) \<in> set settlements"
  shows "\<exists>err' q. Promise_all promises settlements = Some (Inl err')
                 \<and> q \<in> set promises \<and> (q, Inl err') \<in> set settlements"
proof -
  let ?own = "filter (\<lambda>(p, r). p \<in> set promises) settlements"
  from assms have "(p, Inl err) \<in> set ?own" by simp
  from first_rejection_exists[OF this] obtain err' where f: "first_rejection ?own = Some err'" by blast
  from first_rejection_member[OF f] obtain q where "(q, Inl err') \<in> set ?own" by blast
  then have "q \<in> set promises" "(q, Inl err') \<in> set settlements" by auto
  with f show ?thesis by (auto simp: Promise_all_def)
qed

lemma rejected_call:
  "allSubscribed b = Some (Inl err) \<Longrightarrow> iterator_call e b c = (e, b, iterator_rejected err c)"
  by (simp add: iterator_call_def)

lemma rejected_calls:
  "allSubscribed b = Some (Inl err) \<Longrightarrow>
   iterator_calls e b cs = (e, b, concat (map (iterator_rejected err) cs))"
  by (induction cs) (simp_all add: rejected_call)

lemma rejections_yield_nothing:
  "\<not> list_ex yields_value (concat (map (iterator_rejected err) cs))
   \<and> \<not> list_ex is_BrokerCall (concat (map (iterator_rejected err) cs))"
proof (induction cs)
  case Nil
  then show ?case by simp
next
  case (Cons c cs)
  then show ?case by (cases c) simp_all
qed

text \<open>
  Claim C10. When one of the \<open>subscribe\<close> promises of a bridge is rejected,
  \<open>Promise.all\<close> over them is rejected with the error of one of them (the first to be
  rejected). With \<open>allSubscribed\<close> rejected with \<open>err\<close>, the calls that waited for it and
  every later \<open>next\<close>, \<open>return\<close> and \<open>throw\<close> are rejected with \<open>err\<close>, \<open>pushValue\<close> does
  nothing, and no call changes the engine or the bridge: nothing is unsubscribed, no queue
  is touched, and no value is ever handed to the consumer.
\<close>

theorem rejected_registration_rejects_every_call:
  "(p \<in> set promises \<and> (p, Inl err) \<in> set settlements \<longrightarrow>
      (\<exists>err' q. Promise_all promises settlements = Some (Inl err')
                 \<and> q \<in> set promises \<and> (q, Inl err') \<in> set settlements))
   \<and> settle_allSubscribed e b (Inl err)
        = (e, b\<lparr>allSubscribed := Some (Inl err), waiting := []\<rparr>,
           concat (map (iterator_rejected err) (waiting b)))
   \<and> (allSubscribed b = Some (Inl err) \<longrightarrow>
        iterator_calls e b cs = (e, b, concat (map (iterator_rejected err) cs))
        \<and> \<not> list_ex yields_value (snd (snd (iterator_calls e b cs)))
        \<and> \<not> list_ex is_BrokerCall (snd (snd (iterator_calls e b cs)))
        \<and> iterator_call e b (Next q1) = (e, b, [Rejected q1 err])
        \<and> iterator_call e b (Return q1) = (e, b, [Rejected q1 err])
        \<and> iterator_call e b (Throw q1 error) = (e, b, [Rejected q1 err])
        \<and> iterator_call e b (PushValue event) = (e, b, []))"
proof (intro conjI impI)
  assume "p \<in> set promises \<and> (p, Inl err) \<in> set settlements"
  then show "\<exists>err' q. Promise_all promises settlements = Some (Inl err')
                 \<and> q \<in> set promises \<and> (q, Inl err') \<in> set settlements"
    using Promise_all_rejects[of p promises err settlements] by simp
next
  show "settle_allSubscribed e b (Inl err)
        = (e, b\<lparr>allSubscribed := Some (Inl err), waiting := []\<rparr>,
           concat (map (iterator_rejected err) (waiting b)))"
    by (simp add: settle_allSubscribed_def rejected_calls)
next
  assume a: "allSubscribed b = Some (Inl err)"
  show "iterator_calls e b cs = (e, b, concat (map (iterator_rejected err) cs))"
    using a by (rule rejected_calls)
  show "\<not> list_ex yields_value (snd (snd (iterator_calls e b cs)))"
    by (simp add: rejected_calls[OF a] rejections_yield_nothing)
  show "\<not> list_ex is_BrokerCall (snd (snd (iterator_calls e b cs)))"
    by (simp add: rejected_calls[OF a] rejections_yield_nothing)
  show "iterator_call e b (Next q1) = (e, b, [Rejected q1 err])"
    "iterator_call e b (Return q1) = (e, b, [Rejected q1 err])"
    "iterator_call e b (Throw q1 error) = (e, b, [Rejected q1 err])"
    "iterator_call e b (PushValue event) = (e, b, [])"
    by (simp_all add: rejected_call[OF a])
qed

lemma failed_registration_settled:
  "settled failed_registration = [(0, Inl (Thrown ''broker''))]"
  by (simp add: failed_registration_def eval_defs)

lemma failed_registration_promises:
  "fst (subscribeAll (default_topic2SubName :: string \<Rightarrow> unit option \<Rightarrow> string)
          (new_system :: (nat, nat) system) 7 [''t1'', ''t2'']) = [0, 1]"
  by (simp add: eval_defs)

theorem rejected_registration_rejects_every_call_witness:
  "Promise_all [0, 1] (settled failed_registration) = Some (Inl (Thrown ''broker''))
   \<and> iterator_calls (engine failed_registration) rejected_bridge calls_after_rejection
      = (engine failed_registration, rejected_bridge,
         [Rejected 1 (Thrown ''broker''), Rejected 2 (Thrown ''broker''), Rejected 3 (Thrown ''broker'')])"
proof -
  have a: "(0::nat) \<in> set [0, 1] \<and> (0, Inl (Thrown ''broker'')) \<in> set (settled failed_registration)"
    by (simp add: failed_registration_settled)
  have b: "allSubscribed rejected_bridge = Some (Inl (Thrown ''broker''))"
    by (simp add: rejected_bridge_def)
  note t = rejected_registration_rejects_every_call[of 0 "[0, 1]" "Thrown ''broker''"
      "settled failed_registration" "engine failed_registration" rejected_bridge
      calls_after_rejection 1 TypeError 9]
  from t[THEN conjunct1, THEN mp, OF a]
  have c1: "Promise_all [0, 1] (settled failed_registration) = Some (Inl (Thrown ''broker''))"
    by (auto simp: failed_registration_settled)
  from t[THEN conjunct2, THEN conjunct2, THEN mp, OF b, THEN conjunct1]
  have c2: "iterator_calls (engine failed_registration) rejected_bridge calls_after_rejection
      = (engine failed_registration, rejected_bridge,
         [Rejected 1 (Thrown ''broker''), Rejected 2 (Thrown ''broker''), Rejected 3 (Thrown ''broker'')])"
    by (simp add: calls_after_rejection_def del: iterator_calls.simps)
  from c1 c2 show ?thesis by (intro conjI)
qed

section \<open>Attach and detach calls\<close>

lemma attach_calls_append [simp]: "attach_calls n (xs @ ys) = attach_calls n xs + attach_calls n ys"
  by (simp add: attach_calls_def)

lemma detach_calls_append [simp]: "detach_calls n (xs @ ys) = detach_calls n xs + detach_calls n ys"
  by (simp add: detach_calls_def)

lemma attach_calls_Nil [simp]: "attach_calls n [] = 0"
  by (simp add: attach_calls_def)

lemma detach_calls_Nil [simp]: "detach_calls n [] = 0"
  by (simp add: detach_calls_def)

lemma subscribe_attached:
  "subscribe t e topicName cb opts = (r, e') \<Longrightarrow> attached n e' = attached n e"
  by (auto simp: subscribe_def Let_def attached_def split: if_splits option.splits)

lemma subscribe_awaiting:
  "subscribe t e topicName cb opts = (Awaiting fr, e') \<Longrightarrow>
   frame_subName fr = t topicName opts \<and> listeners (t topicName opts) e = 0
   \<and> listeners (t topicName opts) e' = 1"
  by (auto simp: subscribe_def Let_def listeners_def split: if_splits option.splits)

lemma consistent_no_listeners:
  "consistent e \<Longrightarrow> listeners n e = 0 \<Longrightarrow> attached n e = 0"
  by (auto simp: listeners_def attached_def split: option.splits dest: consistent_ids)

lemma subscribe_resume_effect:
  assumes "subscribe_resume e fr outcome = (r, e', cs)"
  shows "(e' = e \<and> cs = [])
         \<or> (attached (frame_subName fr) e' = 1
             \<and> (\<forall>n. n \<noteq> frame_subName fr \<longrightarrow> attached n e' = attached n e)
             \<and> (\<forall>n. attach_calls n cs = (if n = frame_subName fr then 1 else 0))
             \<and> (\<forall>n. detach_calls n cs = 0))"
  using assms
  by (auto simp: subscribe_resume_def attached_def attach_calls_def detach_calls_def
           split: sum.splits option.splits if_splits)

lemma unsubscribe_effect:
  assumes "unsubscribe e i = (r, e', cs)"
  shows "attach_calls n cs = 0 \<and> attached n e' + detach_calls n cs = attached n e"
  using assms
  by (auto simp: unsubscribe_def attached_def attach_calls_def detach_calls_def
           split: option.splits if_splits prod.splits)

lemma find_frame:
  "find (\<lambda>fr. frame_id fr = i) frames = Some fr \<Longrightarrow> fr \<in> set frames"
  by (auto simp: find_Some_iff)

lemma count_member:
  "fr \<in> set frames \<Longrightarrow> P fr \<Longrightarrow> 1 \<le> length (filter P frames)"
  by (induction frames) auto

lemma count_remove1:
  "fr \<in> set frames \<Longrightarrow>
   length (filter P (remove1 fr frames)) = length (filter P frames) - (if P fr then 1 else 0)"
proof (induction frames)
  case Nil
  then show ?case by simp
next
  case (Cons a frames)
  show ?case
  proof (cases "fr = a")
    case True
    then show ?thesis by simp
  next
    case False
    with Cons.prems have mem: "fr \<in> set frames" by simp
    from count_member[OF mem, of P] Cons.IH[OF mem] False show ?thesis by auto
  qed
qed

lemma balanced_step:
  assumes c: "consistent (engine s)" and b: "balanced n s"
    and ok: "starts_no_second_round_trip t s call"
  shows "balanced n (step t s call)"
proof (cases call)
  case (Subscribe topicName cb opts)
  obtain r e' where sub: "subscribe t (engine s) topicName cb opts = (r, e')" by force
  note att = subscribe_attached[OF sub, of n]
  show ?thesis
  proof (cases r)
    case (Returned i)
    with sub Subscribe att b show ?thesis
      by (simp add: balanced_def pending_round_trips_def)
  next
    case (Awaiting fr)
    from subscribe_awaiting[OF sub[unfolded Awaiting]]
    have name: "frame_subName fr = t topicName opts" and none: "listeners (t topicName opts) (engine s) = 0"
      by simp_all
    from ok Subscribe none have nopend: "pending_round_trips (t topicName opts) s = 0" by simp
    show ?thesis
    proof (cases "n = t topicName opts")
      case True
      from consistent_no_listeners[OF c none] True have "attached n (engine s) = 0" by simp
      with sub Subscribe Awaiting att b name True nopend show ?thesis
        by (simp add: balanced_def pending_round_trips_def)
    next
      case False
      with sub Subscribe Awaiting att b name show ?thesis
        by (simp add: balanced_def pending_round_trips_def)
    qed
  qed
next
  case (GetSubscriptionSettled i outcome)
  show ?thesis
  proof (cases "find (\<lambda>fr. frame_id fr = i) (suspended s)")
    case None
    with b GetSubscriptionSettled show ?thesis by simp
  next
    case (Some fr)
    note mem = find_frame[OF Some]
    obtain r e' cs where res: "subscribe_resume (engine s) fr outcome = (r, e', cs)"
      by (cases "subscribe_resume (engine s) fr outcome") auto
    have st: "step t s call = s\<lparr>engine := e', suspended := remove1 fr (suspended s),
                 trace := trace s @ cs, settled := settled s @ [(i, r)]\<rparr>"
      using GetSubscriptionSettled Some res by simp
    have pend: "pending_round_trips n (step t s call)
                  = pending_round_trips n s - (if frame_subName fr = n then 1 else 0)"
      unfolding st pending_round_trips_def using count_remove1[OF mem] by simp
    from subscribe_resume_effect[OF res]
    consider (same) "e' = engine s" "cs = []"
      | (attach) "attached (frame_subName fr) e' = 1"
          "\<forall>m. m \<noteq> frame_subName fr \<longrightarrow> attached m e' = attached m (engine s)"
          "\<forall>m. attach_calls m cs = (if m = frame_subName fr then 1 else 0)"
          "\<forall>m. detach_calls m cs = 0"
      by blast
    then show ?thesis
    proof cases
      case same
      with b pend show ?thesis unfolding st balanced_def by auto
    next
      case attach
      show ?thesis
      proof (cases "n = frame_subName fr")
        case True
        from count_member[OF mem, of "\<lambda>fr. frame_subName fr = n"] True
        have "1 \<le> pending_round_trips n s" by (simp add: pending_round_trips_def)
        with b have one: "pending_round_trips n s = 1" and zero: "attached n (engine s) = 0"
          by (auto simp: balanced_def)
        from pend True one have "pending_round_trips n (step t s call) = 0" by simp
        with attach True zero b show ?thesis
          unfolding balanced_def by (simp add: st)
      next
        case False
        with attach b pend show ?thesis unfolding balanced_def by (simp add: st)
      qed
    qed
  qed
next
  case (Unsubscribe i)
  obtain r e' cs where res: "unsubscribe (engine s) i = (r, e', cs)"
    by (cases "unsubscribe (engine s) i") auto
  have st: "step t s call = s\<lparr>engine := e', trace := trace s @ cs\<rparr>"
    using Unsubscribe res by simp
  from unsubscribe_effect[OF res, of n] b show ?thesis
    unfolding balanced_def st by (auto simp: pending_round_trips_def)
qed

lemma balanced_run:
  assumes "consistent (engine s)" and "balanced n s" and "one_round_trip_at_a_time t s cs"
  shows "balanced n (run t s cs)"
  using assms
proof (induction cs arbitrary: s)
  case Nil
  then show ?case by simp
next
  case (Cons c cs)
  from Cons.prems have ok: "starts_no_second_round_trip t s c"
    and rest: "one_round_trip_at_a_time t (step t s c) cs" by simp_all
  have "balanced n (run t (step t s c) cs)"
    using consistent_step[OF Cons.prems(1)] balanced_step[OF Cons.prems(1,2) ok] rest
    by (rule Cons.IH)
  then show ?case by simp
qed

lemma balanced_new_system: "balanced n new_system"
  by (simp add: balanced_def new_system_def constructor_def pending_round_trips_def attached_def)

lemma attach_step:
  "attach_calls n (trace (step t s c)) + pending_round_trips n (step t s c)
     \<le> attach_calls n (trace s) + pending_round_trips n s
        + (if listeners n (engine s) = 0 \<and> listeners n (engine (step t s c)) = 1 then 1 else 0)"
proof (cases c)
  case (Subscribe topicName cb opts)
  obtain r e' where sub: "subscribe t (engine s) topicName cb opts = (r, e')" by force
  show ?thesis
  proof (cases r)
    case (Returned i)
    with sub Subscribe show ?thesis by (simp add: pending_round_trips_def)
  next
    case (Awaiting fr)
    from subscribe_awaiting[OF sub[unfolded Awaiting]] sub Subscribe Awaiting
    show ?thesis by (auto simp: pending_round_trips_def)
  qed
next
  case (GetSubscriptionSettled i outcome)
  show ?thesis
  proof (cases "find (\<lambda>fr. frame_id fr = i) (suspended s)")
    case None
    with GetSubscriptionSettled show ?thesis by simp
  next
    case (Some fr)
    note mem = find_frame[OF Some]
    obtain r e' cs where res: "subscribe_resume (engine s) fr outcome = (r, e', cs)"
      by (cases "subscribe_resume (engine s) fr outcome") auto
    have st: "step t s c = s\<lparr>engine := e', suspended := remove1 fr (suspended s),
                 trace := trace s @ cs, settled := settled s @ [(i, r)]\<rparr>"
      using GetSubscriptionSettled Some res by simp
    have pend: "pending_round_trips n (step t s c)
                  = pending_round_trips n s - (if frame_subName fr = n then 1 else 0)"
      unfolding st pending_round_trips_def using count_remove1[OF mem] by simp
    have ge: "frame_subName fr = n \<Longrightarrow> 1 \<le> pending_round_trips n s"
      using count_member[OF mem, of "\<lambda>fr. frame_subName fr = n"] by (simp add: pending_round_trips_def)
    have "attach_calls n cs \<le> (if frame_subName fr = n then 1 else 0)"
      using subscribe_resume_effect[OF res] by auto
    with pend ge show ?thesis unfolding st by (auto split: if_splits)
  qed
next
  case (Unsubscribe i)
  obtain r e' cs where res: "unsubscribe (engine s) i = (r, e', cs)"
    by (cases "unsubscribe (engine s) i") auto
  from unsubscribe_effect[OF res, of n] res Unsubscribe show ?thesis
    by (simp add: pending_round_trips_def)
qed

lemma attach_run:
  "attach_calls n (trace (run t s cs)) + pending_round_trips n (run t s cs)
     \<le> attach_calls n (trace s) + pending_round_trips n s + zero_to_one t n s cs"
proof (induction cs arbitrary: s)
  case Nil
  then show ?case by simp
next
  case (Cons c cs)
  from Cons.IH[of "step t s c"] attach_step[of n t s c] show ?case by simp
qed

lemma unsubscribe_detach:
  assumes "unsubscribe e i = (r, e', cs)"
  shows "detach_calls n cs \<le> (if listeners n e = 1 \<and> listeners n e' = 0 then 1 else 0)"
  using assms
  by (auto simp: unsubscribe_def listeners_def detach_calls_def
           split: option.splits if_splits prod.splits)

lemma detach_step:
  "detach_calls n (trace (step t s c))
     \<le> detach_calls n (trace s)
        + (if listeners n (engine s) = 1 \<and> listeners n (engine (step t s c)) = 0 then 1 else 0)"
proof (cases c)
  case (Subscribe topicName cb opts)
  obtain r e' where sub: "subscribe t (engine s) topicName cb opts = (r, e')" by force
  with Subscribe show ?thesis by (cases r) simp_all
next
  case (GetSubscriptionSettled i outcome)
  show ?thesis
  proof (cases "find (\<lambda>fr. frame_id fr = i) (suspended s)")
    case None
    with GetSubscriptionSettled show ?thesis by simp
  next
    case (Some fr)
    obtain r e' cs where res: "subscribe_resume (engine s) fr outcome = (r, e', cs)"
      by (cases "subscribe_resume (engine s) fr outcome") auto
    from subscribe_resume_effect[OF res] have "detach_calls n cs = 0" by auto
    with GetSubscriptionSettled Some res show ?thesis by simp
  qed
next
  case (Unsubscribe i)
  obtain r e' cs where res: "unsubscribe (engine s) i = (r, e', cs)"
    by (cases "unsubscribe (engine s) i") auto
  from unsubscribe_detach[OF res, of n] res Unsubscribe show ?thesis by simp
qed

lemma detach_run:
  "detach_calls n (trace (run t s cs)) \<le> detach_calls n (trace s) + one_to_zero t n s cs"
proof (induction cs arbitrary: s)
  case Nil
  then show ?case by simp
next
  case (Cons c cs)
  from Cons.IH[of "step t s c"] detach_step[of n t s c] show ?case by simp
qed

lemma subscribe_listeners:
  assumes "subscribe t e topicName cb opts = (r, e')"
  shows "listeners n e' = listeners n e + (if n = t topicName opts then 1 else 0)"
    and "\<And>i. r = Returned i \<Longrightarrow> listeners (t topicName opts) e > 0"
    and "\<And>fr. r = Awaiting fr \<Longrightarrow> frame_subName fr = t topicName opts \<and> listeners (t topicName opts) e = 0"
  using assms
  by (auto simp: subscribe_def Let_def listeners_def split: if_splits option.splits)

lemma subscribe_resume_exact:
  assumes "subscribe_resume e fr outcome = (r, e', cs)"
  shows "listeners n e' = listeners n e"
    and "attach_calls n cs
          = (if n = frame_subName fr \<and> \<not> isl outcome \<and> listeners (frame_subName fr) e \<noteq> 0 then 1 else 0)"
    and "detach_calls n cs = 0"
  using assms
  by (auto simp: subscribe_resume_def listeners_def attach_calls_def detach_calls_def
           split: sum.splits option.splits if_splits)

lemma unsubscribe_exact:
  assumes "unsubscribe e i = (r, e', cs)"
  shows "listeners n e' \<le> listeners n e"
    and "attach_calls n cs = 0"
    and "detach_calls n cs
          = (if listeners n e = 1 \<and> listeners n e' = 0 \<and> attached n e = 1 then 1 else 0)"
  using assms
  by (auto simp: unsubscribe_def listeners_def attached_def attach_calls_def detach_calls_def
                 without_index_def
           split: option.splits if_splits prod.splits)

lemma attach_exact_step:
  "attach_calls n (trace (step t s c)) + pending_round_trips n (step t s c)
     + (if ends_unattached n s c then 1 else 0)
   = attach_calls n (trace s) + pending_round_trips n s
     + (if listeners n (engine s) = 0 \<and> listeners n (engine (step t s c)) = 1 then 1 else 0)"
proof (cases c)
  case (Subscribe topicName cb opts)
  obtain r e' where sub: "subscribe t (engine s) topicName cb opts = (r, e')" by force
  note l = subscribe_listeners[OF sub]
  show ?thesis
  proof (cases r)
    case (Returned i)
    from l(2)[OF Returned] l(1)[of n] sub Subscribe Returned show ?thesis
      by (auto simp: pending_round_trips_def)
  next
    case (Awaiting fr)
    from l(3)[OF Awaiting] l(1)[of n] sub Subscribe Awaiting show ?thesis
      by (auto simp: pending_round_trips_def)
  qed
next
  case (GetSubscriptionSettled i outcome)
  show ?thesis
  proof (cases "find (\<lambda>fr. frame_id fr = i) (suspended s)")
    case None
    with GetSubscriptionSettled show ?thesis by auto
  next
    case (Some fr)
    note mem = find_frame[OF Some]
    obtain r e' cs where res: "subscribe_resume (engine s) fr outcome = (r, e', cs)"
      by (cases "subscribe_resume (engine s) fr outcome") auto
    have st: "step t s c = s\<lparr>engine := e', suspended := remove1 fr (suspended s),
                 trace := trace s @ cs, settled := settled s @ [(i, r)]\<rparr>"
      using GetSubscriptionSettled Some res by simp
    have pend: "pending_round_trips n (step t s c)
                  = pending_round_trips n s - (if frame_subName fr = n then 1 else 0)"
      unfolding st pending_round_trips_def using count_remove1[OF mem] by simp
    have ge: "frame_subName fr = n \<Longrightarrow> 1 \<le> pending_round_trips n s"
      using count_member[OF mem, of "\<lambda>fr. frame_subName fr = n"] by (simp add: pending_round_trips_def)
    have ua: "ends_unattached n s c
                = (frame_subName fr = n \<and> (isl outcome \<or> listeners n (engine s) = 0))"
      using GetSubscriptionSettled Some by simp
    note x = subscribe_resume_exact[OF res, of n]
    from x(1) have lst: "listeners n (engine (step t s c)) = listeners n (engine s)"
      unfolding st by simp
    show ?thesis
      using pend ge ua x(2) lst unfolding st by (auto split: if_splits)
  qed
next
  case (Unsubscribe i)
  obtain r e' cs where res: "unsubscribe (engine s) i = (r, e', cs)"
    by (cases "unsubscribe (engine s) i") auto
  from unsubscribe_exact(1,2)[OF res, of n] res Unsubscribe show ?thesis
    by (auto simp: pending_round_trips_def)
qed

lemma attach_exact_run:
  "attach_calls n (trace (run t s cs)) + pending_round_trips n (run t s cs)
     + unattached_round_trips t n s cs
   = attach_calls n (trace s) + pending_round_trips n s + zero_to_one t n s cs"
proof (induction cs arbitrary: s)
  case Nil
  then show ?case by simp
next
  case (Cons c cs)
  from Cons.IH[of "step t s c"] attach_exact_step[of n t s c] show ?case by simp
qed

lemma detach_exact_step:
  "detach_calls n (trace (step t s c))
     = detach_calls n (trace s)
       + (if listeners n (engine s) = 1 \<and> listeners n (engine (step t s c)) = 0
             \<and> attached n (engine s) = 1
          then 1 else 0)"
proof (cases c)
  case (Subscribe topicName cb opts)
  obtain r e' where sub: "subscribe t (engine s) topicName cb opts = (r, e')" by force
  from subscribe_listeners(1)[OF sub, of n] sub Subscribe show ?thesis by (cases r) auto
next
  case (GetSubscriptionSettled i outcome)
  show ?thesis
  proof (cases "find (\<lambda>fr. frame_id fr = i) (suspended s)")
    case None
    with GetSubscriptionSettled show ?thesis by auto
  next
    case (Some fr)
    obtain r e' cs where res: "subscribe_resume (engine s) fr outcome = (r, e', cs)"
      by (cases "subscribe_resume (engine s) fr outcome") auto
    from subscribe_resume_exact(1,3)[OF res, of n] GetSubscriptionSettled Some res
    show ?thesis by auto
  qed
next
  case (Unsubscribe i)
  obtain r e' cs where res: "unsubscribe (engine s) i = (r, e', cs)"
    by (cases "unsubscribe (engine s) i") auto
  from unsubscribe_exact(3)[OF res, of n] res Unsubscribe show ?thesis by simp
qed

lemma detach_exact_run:
  "detach_calls n (trace (run t s cs)) = detach_calls n (trace s) + attached_one_to_zero t n s cs"
proof (induction cs arbitrary: s)
  case Nil
  then show ?case by simp
next
  case (Cons c cs)
  from Cons.IH[of "step t s c"] detach_exact_step[of n t s c] show ?case by simp
qed

text \<open>
  Claim C1, as amended. For every sequence of \<open>subscribe\<close> calls, round-trip ends and
  \<open>unsubscribe\<close> calls against a new engine, and every subscription name. The steps that
  take the listeners of the name from none to one are, in number, the attach calls of the
  message handler, plus the round trips still pending for the name, plus the round trips
  of the name that ended when the broker rejected or when the name had no listener: the
  handler is attached exactly once for each such step whose round trip has ended with a
  handle while the name had a listener, and for no other. The detach calls are, in number,
  the steps that take the listeners from one to none while a handle is attached: the
  handler is detached exactly once at each such step, and at no other. When no
  \<open>subscribe\<close> starts a round trip for a name while an earlier round trip for that name is
  still pending, the attach calls equal the detach calls plus one if a handle is attached
  at the end; they are equal whenever the name has no listener.
\<close>

theorem attach_detach_balance:
  "zero_to_one t n new_system cs
     = attach_calls n (trace (run t new_system cs)) + pending_round_trips n (run t new_system cs)
       + unattached_round_trips t n new_system cs
   \<and> detach_calls n (trace (run t new_system cs)) = attached_one_to_zero t n new_system cs
   \<and> attach_calls n (trace (run t new_system cs)) \<le> zero_to_one t n new_system cs
   \<and> detach_calls n (trace (run t new_system cs)) \<le> one_to_zero t n new_system cs
   \<and> (one_round_trip_at_a_time t new_system cs \<longrightarrow>
        attach_calls n (trace (run t new_system cs))
          = detach_calls n (trace (run t new_system cs)) + attached n (engine (run t new_system cs)))
   \<and> (one_round_trip_at_a_time t new_system cs \<and> listeners n (engine (run t new_system cs)) = 0 \<longrightarrow>
        attach_calls n (trace (run t new_system cs)) = detach_calls n (trace (run t new_system cs)))"
proof (intro conjI impI)
  from attach_exact_run[of n t new_system cs]
  show "zero_to_one t n new_system cs
     = attach_calls n (trace (run t new_system cs)) + pending_round_trips n (run t new_system cs)
       + unattached_round_trips t n new_system cs"
    by (simp add: new_system_def pending_round_trips_def)
next
  from detach_exact_run[of n t new_system cs]
  show "detach_calls n (trace (run t new_system cs)) = attached_one_to_zero t n new_system cs"
    by (simp add: new_system_def)
next
  from attach_run[of n t new_system cs]
  show "attach_calls n (trace (run t new_system cs)) \<le> zero_to_one t n new_system cs"
    by (simp add: new_system_def pending_round_trips_def)
next
  from detach_run[of n t new_system cs]
  show "detach_calls n (trace (run t new_system cs)) \<le> one_to_zero t n new_system cs"
    by (simp add: new_system_def)
next
  assume "one_round_trip_at_a_time t new_system cs"
  with balanced_run[of new_system n t cs] balanced_new_system[of n]
  have "balanced n (run t new_system cs)"
    by (simp add: new_system_def consistent_constructor)
  then show "attach_calls n (trace (run t new_system cs))
          = detach_calls n (trace (run t new_system cs)) + attached n (engine (run t new_system cs))"
    by (simp add: balanced_def)
next
  assume a: "one_round_trip_at_a_time t new_system cs \<and> listeners n (engine (run t new_system cs)) = 0"
  with balanced_run[of new_system n t cs] balanced_new_system[of n]
  have "balanced n (run t new_system cs)"
    by (simp add: new_system_def consistent_constructor)
  moreover from a consistent_no_listeners[OF consistent_reachable, of n t cs]
  have "attached n (engine (run t new_system cs)) = 0" by simp
  ultimately show "attach_calls n (trace (run t new_system cs)) = detach_calls n (trace (run t new_system cs))"
    by (simp add: balanced_def)
qed

lemma reattach_admissible:
  "one_round_trip_at_a_time default_topic2SubName new_system attach_detach_reattach"
  by (simp add: attach_detach_reattach_def eval_defs listeners_def pending_round_trips_def)

lemma leave_admissible:
  "one_round_trip_at_a_time default_topic2SubName new_system leave_before_round_trip
   \<and> listeners ''Posts-subscription''
        (engine (run default_topic2SubName new_system leave_before_round_trip)) = 0"
  by (simp add: leave_before_round_trip_def eval_defs listeners_def pending_round_trips_def)

lemma reattach_transitions:
  "zero_to_one default_topic2SubName ''Posts-subscription'' new_system attach_detach_reattach = 2
   \<and> pending_round_trips ''Posts-subscription''
       (run default_topic2SubName new_system attach_detach_reattach) = 0
   \<and> unattached_round_trips default_topic2SubName ''Posts-subscription'' new_system attach_detach_reattach = 0
   \<and> attached_one_to_zero default_topic2SubName ''Posts-subscription'' new_system attach_detach_reattach = 1
   \<and> attached ''Posts-subscription'' (engine (run default_topic2SubName new_system attach_detach_reattach)) = 1"
  by (simp add: attach_detach_reattach_def eval_defs listeners_def pending_round_trips_def attached_def)

theorem attach_detach_balance_witness:
  "attach_calls ''Posts-subscription'' (trace (run default_topic2SubName new_system attach_detach_reattach)) = 2
   \<and> detach_calls ''Posts-subscription'' (trace (run default_topic2SubName new_system attach_detach_reattach)) = 1
   \<and> attach_calls ''Posts-subscription'' (trace (run default_topic2SubName new_system attach_detach_reattach))
     = detach_calls ''Posts-subscription'' (trace (run default_topic2SubName new_system attach_detach_reattach))
       + attached ''Posts-subscription'' (engine (run default_topic2SubName new_system attach_detach_reattach))
   \<and> attach_calls ''Posts-subscription'' (trace (run default_topic2SubName new_system leave_before_round_trip))
     = detach_calls ''Posts-subscription'' (trace (run default_topic2SubName new_system leave_before_round_trip))"
proof -
  note t1 = attach_detach_balance[of default_topic2SubName "''Posts-subscription''" attach_detach_reattach]
  note t2 = attach_detach_balance[of default_topic2SubName "''Posts-subscription''" leave_before_round_trip]
  from t1[THEN conjunct1] reattach_transitions
  have c0: "attach_calls ''Posts-subscription'' (trace (run default_topic2SubName new_system attach_detach_reattach)) = 2"
    by simp
  from t1[THEN conjunct2, THEN conjunct1] reattach_transitions
  have c0': "detach_calls ''Posts-subscription'' (trace (run default_topic2SubName new_system attach_detach_reattach)) = 1"
    by simp
  note c1 = t1[THEN conjunct2, THEN conjunct2, THEN conjunct2, THEN conjunct2, THEN conjunct1, THEN mp,
      OF reattach_admissible]
  note c2 = t2[THEN conjunct2, THEN conjunct2, THEN conjunct2, THEN conjunct2, THEN conjunct2, THEN mp,
      OF leave_admissible]
  from c0 c0' c1 c2 show ?thesis by (intro conjI)
qed

text \<open>
  Claim C1 as stated fails in three ways. When the only listener leaves during its round
  trip, the listeners went from none to one and back and no attach or detach call is ever
  made. When the broker rejects the round trip of the first listener, no attach call is
  made either; nor has one been made while the round trip is pending. When a second
  listener subscribes after the first has left and before the first round trip ends, both
  round trips attach a handler and only one detach call follows: two attach calls, one
  detach call, no listener left and no round trip pending.
\<close>

theorem attach_detach_imbalance:
  "zero_to_one default_topic2SubName ''Posts-subscription'' new_system leave_before_round_trip = 1
   \<and> one_to_zero default_topic2SubName ''Posts-subscription'' new_system leave_before_round_trip = 1
   \<and> attach_calls ''Posts-subscription''
        (trace (run default_topic2SubName new_system leave_before_round_trip)) = 0
   \<and> detach_calls ''Posts-subscription''
        (trace (run default_topic2SubName new_system leave_before_round_trip)) = 0
   \<and> suspended (run default_topic2SubName new_system leave_before_round_trip) = []
   \<and> zero_to_one default_topic2SubName ''Posts-subscription'' new_system round_trip_fails = 1
   \<and> attach_calls ''Posts-subscription''
        (trace (run default_topic2SubName new_system round_trip_fails)) = 0
   \<and> suspended (run default_topic2SubName new_system round_trip_fails) = []
   \<and> zero_to_one default_topic2SubName ''Posts-subscription'' new_system posts = 1
   \<and> attach_calls ''Posts-subscription'' (trace (run default_topic2SubName new_system posts)) = 0
   \<and> pending_round_trips ''Posts-subscription'' (run default_topic2SubName new_system posts) = 1
   \<and> attach_calls ''Posts-subscription''
        (trace (run default_topic2SubName new_system resubscribe_during_round_trip)) = 2
   \<and> detach_calls ''Posts-subscription''
        (trace (run default_topic2SubName new_system resubscribe_during_round_trip)) = 1
   \<and> listeners ''Posts-subscription''
        (engine (run default_topic2SubName new_system resubscribe_during_round_trip)) = 0
   \<and> suspended (run default_topic2SubName new_system resubscribe_during_round_trip) = []"
  by (simp add: leave_before_round_trip_def resubscribe_during_round_trip_def round_trip_fails_def
      posts_def eval_defs listeners_def attach_calls_def detach_calls_def pending_round_trips_def)

end
